theory Spec2Isabelle
  imports Main
begin

section \<open>Python text\<close>

text \<open>
  A Python \<open>str\<close> is a sequence of Unicode code points and \<open>len\<close> counts code points,
  so a character is modelled by its code point and a string by the list of them.
  The box-drawing glyphs of \<open>fje.py\<close> are single code points.
\<close>

type_synonym pychar = nat
type_synonym pystr = "pychar list"

definition ascii :: "string \<Rightarrow> pystr" where
  "ascii s = map of_char s"

abbreviation c_newline :: pychar where "c_newline \<equiv> 10"
abbreviation c_space :: pychar where "c_space \<equiv> 32"
abbreviation c_dash :: pychar where "c_dash \<equiv> 9472"         \<comment> \<open>U+2500, horizontal fill\<close>
abbreviation c_bar :: pychar where "c_bar \<equiv> 9474"           \<comment> \<open>U+2502, vertical guide\<close>
abbreviation c_top_left :: pychar where "c_top_left \<equiv> 9484" \<comment> \<open>U+250C\<close>
abbreviation c_top_right :: pychar where "c_top_right \<equiv> 9488" \<comment> \<open>U+2510\<close>
abbreviation c_elbow :: pychar where "c_elbow \<equiv> 9492"       \<comment> \<open>U+2514, also the bottom-left corner\<close>
abbreviation c_bottom_right :: pychar where "c_bottom_right \<equiv> 9496" \<comment> \<open>U+2518\<close>
abbreviation c_tee :: pychar where "c_tee \<equiv> 9500"           \<comment> \<open>U+251C\<close>
abbreviation c_right :: pychar where "c_right \<equiv> 9508"       \<comment> \<open>U+2524, right border\<close>
abbreviation c_up_tee :: pychar where "c_up_tee \<equiv> 9524"     \<comment> \<open>U+2534, T-junction\<close>

text \<open>The characters for which \<open>str.isspace\<close> holds; \<open>str.rstrip()\<close> removes them from the end.\<close>

definition isspace :: "pychar \<Rightarrow> bool" where
  "isspace c = ((9 \<le> c \<and> c \<le> 13) \<or> (28 \<le> c \<and> c \<le> 32) \<or> c = 133 \<or> c = 160 \<or> c = 5760
     \<or> (8192 \<le> c \<and> c \<le> 8202) \<or> c = 8232 \<or> c = 8233 \<or> c = 8239 \<or> c = 8287 \<or> c = 12288)"

definition rstrip :: "pystr \<Rightarrow> pystr" where
  "rstrip s = rev (dropWhile isspace (rev s))"

text \<open>Decimal text of an integer, as \<open>str(int)\<close> writes it.\<close>

function str_nat :: "nat \<Rightarrow> pystr" where
  "str_nat n = (if n < 10 then [48 + n] else str_nat (n div 10) @ [48 + n mod 10])"
  by pat_completeness auto
termination
  by (relation "measure id") auto

declare str_nat.simps [simp del]

definition str_int :: "int \<Rightarrow> pystr" where
  "str_int i = (if i < 0 then 45 # str_nat (nat (- i)) else str_nat (nat i))"

section \<open>Errors and list indexing\<close>

datatype error = TypeError | IndexError | AttributeError | RecursionError

text \<open>
  Indexing a Python list of length \<open>len\<close> with \<open>i\<close>: a negative index counts from the end, and
  an index outside the list has no position. \<open>xs[i]\<close> and \<open>xs[i] = v\<close> raise \<open>IndexError\<close> there.
\<close>

definition list_index :: "nat \<Rightarrow> int \<Rightarrow> nat option" where
  "list_index len i =
     (if 0 \<le> i \<and> i < int len then Some (nat i)
      else if i < 0 \<and> - int len \<le> i then Some (nat (int len + i))
      else None)"

definition get_item :: "'a list \<Rightarrow> int \<Rightarrow> error + 'a" where
  "get_item xs i =
     (case list_index (length xs) i of None \<Rightarrow> Inl IndexError | Some j \<Rightarrow> Inr (xs ! j))"

definition set_item :: "'a list \<Rightarrow> int \<Rightarrow> 'a \<Rightarrow> error + 'a list" where
  "set_item xs i v =
     (case list_index (length xs) i of None \<Rightarrow> Inl IndexError | Some j \<Rightarrow> Inr (xs[j := v]))"

section \<open>The JSON value model\<close>

text \<open>
  What \<open>json.load\<close> hands to the builder: a \<open>dict\<close> (insertion ordered), a \<open>list\<close>, or a
  scalar. A float is carried as the text that \<open>str\<close> gives for it, which is all that the
  program reads of it.
\<close>

datatype scalar = SNone | SBool bool | SInt int | SFloat pystr | SStr pystr

datatype json = JObject "(pystr \<times> json) list" | JArray "json list" | JScalar scalar

fun str_scalar :: "scalar \<Rightarrow> pystr" where
  "str_scalar SNone = ascii ''None''"
| "str_scalar (SBool b) = (if b then ascii ''True'' else ascii ''False'')"
| "str_scalar (SInt i) = str_int i"
| "str_scalar (SFloat t) = t"
| "str_scalar (SStr s) = s"

text \<open>A key is \<open>None\<close> (the root) or a string; \<open>f"{key}"\<close> writes \<open>None\<close> as the text None.\<close>

fun str_key :: "pystr option \<Rightarrow> pystr" where
  "str_key None = ascii ''None''"
| "str_key (Some k) = k"

section \<open>Nodes\<close>

text \<open>
  \<open>icon_family\<close> is the pair (container icon, leaf icon). The four node classes are the
  constructors; the fields follow \<open>__init__\<close>. A leaf has no \<open>level\<close> attribute until
  \<open>add\<close> gives it one, hence the option.
\<close>

type_synonym icons = "pystr \<times> pystr"

datatype node =
    TreeLeafNode "pystr option" scalar icons "int option"
      \<comment> \<open>key, value, icon family, level\<close>
  | TreeCompositeNode "pystr option" icons "node list" int
      \<comment> \<open>key, icon family, children, level\<close>
  | RectangleLeafNode "pystr option" scalar icons int "int option"
      \<comment> \<open>key, value, icon family, row length, level\<close>
  | RectangleCompositeNode "pystr option" icons "node list" int int
      \<comment> \<open>key, icon family, children, level, row length\<close>

fun is_composite :: "node \<Rightarrow> bool" where
  "is_composite (TreeCompositeNode k ic cs lv) = True"
| "is_composite (RectangleCompositeNode k ic cs lv w) = True"
| "is_composite _ = False"

fun children :: "node \<Rightarrow> node list" where
  "children (TreeCompositeNode k ic cs lv) = cs"
| "children (RectangleCompositeNode k ic cs lv w) = cs"
| "children _ = []"

fun level :: "node \<Rightarrow> int option" where
  "level (TreeLeafNode k v ic lv) = lv"
| "level (TreeCompositeNode k ic cs lv) = Some lv"
| "level (RectangleLeafNode k v ic w lv) = lv"
| "level (RectangleCompositeNode k ic cs lv w) = Some lv"

text \<open>The assignment \<open>node.level = l\<close>.\<close>

fun set_level :: "node \<Rightarrow> int \<Rightarrow> node" where
  "set_level (TreeLeafNode k v ic lv) l = TreeLeafNode k v ic (Some l)"
| "set_level (TreeCompositeNode k ic cs lv) l = TreeCompositeNode k ic cs l"
| "set_level (RectangleLeafNode k v ic w lv) l = RectangleLeafNode k v ic w (Some l)"
| "set_level (RectangleCompositeNode k ic cs lv w) l = RectangleCompositeNode k ic cs l w"

text \<open>
  \<open>add\<close> stamps the child's level from the parent's current level and appends the child.
  Only the composite classes define it; on a leaf the call raises \<open>AttributeError\<close>.
\<close>

fun add :: "node \<Rightarrow> node \<Rightarrow> error + node" where
  "add (TreeCompositeNode k ic cs lv) child =
     Inr (TreeCompositeNode k ic (cs @ [set_level child (lv + 1)]) lv)"
| "add (RectangleCompositeNode k ic cs lv w) child =
     Inr (RectangleCompositeNode k ic (cs @ [set_level child (lv + 1)]) lv w)"
| "add _ child = Inl AttributeError"

section \<open>Factories and the builder\<close>

datatype factory = TreeNodeFactory | RectangleNodeFactory

fun create_leaf_node :: "factory \<Rightarrow> pystr option \<Rightarrow> scalar \<Rightarrow> icons \<Rightarrow> node" where
  "create_leaf_node TreeNodeFactory key v ic = TreeLeafNode key v ic None"
| "create_leaf_node RectangleNodeFactory key v ic = RectangleLeafNode key v ic 60 None"

fun create_composite_node :: "factory \<Rightarrow> pystr option \<Rightarrow> icons \<Rightarrow> node" where
  "create_composite_node TreeNodeFactory key ic = TreeCompositeNode key ic [] 0"
| "create_composite_node RectangleNodeFactory key ic = RectangleCompositeNode key ic [] 0 60"

text \<open>
  \<open>JSONBuilder.build\<close>. The two \<open>for\<close> loops are \<open>build_items\<close> (over \<open>dict.items()\<close>) and
  \<open>build_elems\<close> (over \<open>enumerate(list)\<close>); each carries the node under construction.
\<close>

fun build :: "factory \<Rightarrow> icons \<Rightarrow> json \<Rightarrow> pystr option \<Rightarrow> error + node"
  and build_items :: "factory \<Rightarrow> icons \<Rightarrow> (pystr \<times> json) list \<Rightarrow> node \<Rightarrow> error + node"
  and build_elems :: "factory \<Rightarrow> icons \<Rightarrow> pystr option \<Rightarrow> nat \<Rightarrow> json list \<Rightarrow> node \<Rightarrow> error + node"
where
  "build f ic (JObject kvs) key = build_items f ic kvs (create_composite_node f key ic)"
| "build f ic (JArray vs) key = build_elems f ic key 0 vs (create_composite_node f key ic)"
| "build f ic (JScalar v) key = Inr (create_leaf_node f key v ic)"
| "build_items f ic [] node = Inr node"
| "build_items f ic ((k, v) # kvs) node =
     (case build f ic v (Some k) of
        Inl e \<Rightarrow> Inl e
      | Inr child_node \<Rightarrow>
          (case add node child_node of
             Inl e \<Rightarrow> Inl e
           | Inr node' \<Rightarrow> build_items f ic kvs node'))"
| "build_elems f ic key i [] node = Inr node"
| "build_elems f ic key i (v # vs) node =
     (case build f ic v (Some (str_key key @ ascii ''['' @ str_nat i @ ascii '']'')) of
        Inl e \<Rightarrow> Inl e
      | Inr child_node \<Rightarrow>
          (case add node child_node of
             Inl e \<Rightarrow> Inl e
           | Inr node' \<Rightarrow> build_elems f ic key (i + 1) vs node'))"





section \<open>Rendering\<close>

definition node_prefix :: "bool \<Rightarrow> pystr" where
  "node_prefix is_last = (if is_last then [c_elbow, c_dash] else [c_tee, c_dash])"

text \<open>
  The expression \<open>row + '\<dots>' * (row_length - len(row) - 1) + '\<dots>'\<close> of the rectangle
  classes: a string times a negative number is the empty string.
\<close>

definition pad_row :: "int \<Rightarrow> pystr \<Rightarrow> pystr" where
  "pad_row row_length row =
     row @ replicate (nat (row_length - int (length row) - 1)) c_dash @ [c_dash, c_right]"

text \<open>\<open>str(x)\<close> of what a \<open>display\<close> call returned: \<open>None\<close> becomes the text None.\<close>

fun str_result :: "pystr option \<Rightarrow> pystr" where
  "str_result None = ascii ''None''"
| "str_result (Some s) = s"

text \<open>
  The \<open>for i in range(-row_length-1, -1)\<close> loop of the border pass, over the list of the
  indices it visits. A character equals an icon when the icon is that one character.
\<close>

fun border_scan :: "icons \<Rightarrow> int list \<Rightarrow> pystr \<Rightarrow> error + pystr" where
  "border_scan ic [] result_list = Inr result_list"
| "border_scan ic (i # is) result_list =
     (case get_item result_list i of
        Inl e \<Rightarrow> Inl e
      | Inr c \<Rightarrow>
          if c = c_bar \<or> c = c_tee \<or> c = c_elbow then
            (case set_item result_list i c_up_tee of
               Inl e \<Rightarrow> Inl e
             | Inr result_list' \<Rightarrow> border_scan ic is result_list')
          else if c = c_space then
            (case set_item result_list i c_dash of
               Inl e \<Rightarrow> Inl e
             | Inr result_list' \<Rightarrow> border_scan ic is result_list')
          else if [c] = fst ic \<or> [c] = snd ic then Inr result_list
          else border_scan ic is result_list)"

text \<open>The border pass of \<open>RectangleCompositeNode.display\<close>, run when \<open>level == 0\<close>.\<close>

definition border :: "icons \<Rightarrow> int \<Rightarrow> pystr \<Rightarrow> error + pystr" where
  "border ic row_length result =
     (case set_item result 0 c_top_left of
        Inl e \<Rightarrow> Inl e
      | Inr l1 \<Rightarrow>
     (case set_item l1 row_length c_top_right of
        Inl e \<Rightarrow> Inl e
      | Inr l2 \<Rightarrow>
     (case set_item l2 (- 2) c_bottom_right of
        Inl e \<Rightarrow> Inl e
      | Inr l3 \<Rightarrow>
     (case set_item l3 (- row_length - 2) c_elbow of
        Inl e \<Rightarrow> Inl e
      | Inr l4 \<Rightarrow> border_scan ic [- row_length - 1 .. - 2] l4))))"

text \<open>
  \<open>display\<close> of the four classes, dispatched on the class of the node. It returns the text,
  or \<open>None\<close> where the method falls off its end, or the exception it raises.
  \<open>tree_children\<close> and \<open>rectangle_children\<close> are the \<open>for i, child in enumerate(self.children)\<close>
  loops: \<open>i\<close> is the index, \<open>n\<close> is \<open>len(self.children)\<close>, \<open>result\<close> the text so far.
  In the tree loop \<open>child.display(\<dots>) + '\n'\<close> raises \<open>TypeError\<close> on \<open>None\<close>;
  the rectangle loop wraps the call in \<open>str\<close>.
\<close>

fun display :: "node \<Rightarrow> pystr \<Rightarrow> bool \<Rightarrow> error + pystr option"
  and tree_children ::
    "node list \<Rightarrow> nat \<Rightarrow> nat \<Rightarrow> int \<Rightarrow> pystr \<Rightarrow> bool \<Rightarrow> pystr \<Rightarrow> error + pystr"
  and rectangle_children ::
    "node list \<Rightarrow> nat \<Rightarrow> nat \<Rightarrow> int \<Rightarrow> pystr \<Rightarrow> pystr \<Rightarrow> error + pystr"
where
  "display (TreeLeafNode key v ic lv) prefix is_last =
     (if v = SNone
      then Inr (Some (prefix @ node_prefix is_last @ snd ic @ str_key key))
      else Inr (Some (prefix @ node_prefix is_last @ snd ic @ str_key key
                        @ ascii '': '' @ str_scalar v)))"
| "display (TreeCompositeNode key ic cs lv) prefix is_last =
     (case tree_children cs 0 (length cs) lv prefix is_last
             (if lv = 0 then []
              else prefix @ node_prefix is_last @ fst ic @ str_key key @ [c_newline]) of
        Inl e \<Rightarrow> Inl e
      | Inr result \<Rightarrow> Inr (Some (rstrip result)))"
| "display (RectangleLeafNode key v ic row_length lv) prefix is_last =
     (if v = SNone
      then (let row = prefix @ node_prefix is_last @ snd ic @ str_key key
            in if int (length row) < row_length
               then Inr (Some (pad_row row_length row)) else Inr None)
      else (let row = prefix @ node_prefix is_last @ snd ic @ str_key key
                        @ ascii '': '' @ str_scalar v
            in if int (length row) < row_length
               then Inr (Some (pad_row row_length row)) else Inr None))"
| "display (RectangleCompositeNode key ic cs lv row_length) prefix is_last =
     (case rectangle_children cs 0 (length cs) lv prefix
             (if lv = 0 then []
              else pad_row row_length (prefix @ [c_tee, c_dash] @ fst ic @ str_key key)
                     @ [c_newline]) of
        Inl e \<Rightarrow> Inl e
      | Inr result \<Rightarrow>
          if lv = 0 then
            (case border ic row_length result of
               Inl e \<Rightarrow> Inl e
             | Inr result' \<Rightarrow> Inr (Some (rstrip result')))
          else Inr (Some (rstrip result)))"
| "tree_children [] i n lv prefix is_last result = Inr result"
| "tree_children (child # rest) i n lv prefix is_last result =
     (case display child
             (prefix @ (if lv = 0 then [] else if is_last then ascii ''   '' else c_bar # ascii ''  ''))
             (int i = int n - 1) of
        Inl e \<Rightarrow> Inl e
      | Inr None \<Rightarrow> Inl TypeError
      | Inr (Some s) \<Rightarrow> tree_children rest (i + 1) n lv prefix is_last (result @ s @ [c_newline]))"
| "rectangle_children [] i n lv prefix result = Inr result"
| "rectangle_children (child # rest) i n lv prefix result =
     (case display child
             (prefix @ (if lv = 0 then [] else c_bar # ascii ''  ''))
             (int i = int n - 1) of
        Inl e \<Rightarrow> Inl e
      | Inr r \<Rightarrow> rectangle_children rest (i + 1) n lv prefix (result @ str_result r @ [c_newline]))"

section \<open>Nodes as objects in a store\<close>

text \<open>
  The model above takes a node as a value. Here the nodes are objects in a store and a
  node refers to its children by their addresses, so that what a method reads and what it
  writes is explicit: \<open>add\<close> writes the level of the child and the children of the parent,
  the \<open>display\<close> methods only read. Every function that may change the store returns the
  store it leaves.
\<close>

type_synonym ref = nat

datatype obj =
    TreeLeafObj "pystr option" scalar icons "int option"
  | TreeCompositeObj "pystr option" icons "ref list" int
  | RectangleLeafObj "pystr option" scalar icons int "int option"
  | RectangleCompositeObj "pystr option" icons "ref list" int int

type_synonym store = "obj list"

text \<open>The object at an address, if the store has one there.\<close>

definition deref :: "store \<Rightarrow> ref \<Rightarrow> obj option" where
  "deref h a = (if a < length h then Some (h ! a) else None)"

text \<open>
  \<open>display\<close> on the object at \<open>self\<close>. The attributes of \<open>self\<close> are read from the store
  where the method reads them: at its start, in every round of the loop (\<open>self.children\<close>,
  \<open>len(self.children)\<close> and \<open>self.level\<close>), and, in the rectangle class, again after the
  loop. A leaf's method reads the leaf's own attributes only, so it is the method of the
  value model applied to them. \<open>fuel\<close> bounds the nesting of calls and loop rounds; the
  result \<open>None\<close> means no outcome: the fuel ran out, or a reference is to no object of the
  right class, which no run of the program produces.
\<close>

fun display_obj ::
    "nat \<Rightarrow> store \<Rightarrow> ref \<Rightarrow> pystr \<Rightarrow> bool \<Rightarrow> ((error + pystr option) \<times> store) option"
  and tree_loop ::
    "nat \<Rightarrow> store \<Rightarrow> ref \<Rightarrow> nat \<Rightarrow> pystr \<Rightarrow> bool \<Rightarrow> pystr \<Rightarrow> ((error + pystr) \<times> store) option"
  and rectangle_loop ::
    "nat \<Rightarrow> store \<Rightarrow> ref \<Rightarrow> nat \<Rightarrow> pystr \<Rightarrow> pystr \<Rightarrow> ((error + pystr) \<times> store) option"
where
  "display_obj 0 h self prefix is_last = None"
| "display_obj (Suc fuel) h self prefix is_last =
     (case deref h self of
        None \<Rightarrow> None
      | Some (TreeLeafObj key v ic lv) \<Rightarrow>
          Some (display (TreeLeafNode key v ic lv) prefix is_last, h)
      | Some (RectangleLeafObj key v ic row_length lv) \<Rightarrow>
          Some (display (RectangleLeafNode key v ic row_length lv) prefix is_last, h)
      | Some (TreeCompositeObj key ic cs lv) \<Rightarrow>
          (case tree_loop fuel h self 0 prefix is_last
                  (if lv = 0 then []
                   else prefix @ node_prefix is_last @ fst ic @ str_key key @ [c_newline]) of
             None \<Rightarrow> None
           | Some (Inl e, h') \<Rightarrow> Some (Inl e, h')
           | Some (Inr result, h') \<Rightarrow> Some (Inr (Some (rstrip result)), h'))
      | Some (RectangleCompositeObj key ic cs lv row_length) \<Rightarrow>
          (case rectangle_loop fuel h self 0 prefix
                  (if lv = 0 then []
                   else pad_row row_length (prefix @ [c_tee, c_dash] @ fst ic @ str_key key)
                          @ [c_newline]) of
             None \<Rightarrow> None
           | Some (Inl e, h') \<Rightarrow> Some (Inl e, h')
           | Some (Inr result, h') \<Rightarrow>
               (case deref h' self of
                  Some (RectangleCompositeObj key' ic' cs' lv' row_length') \<Rightarrow>
                    if lv' = 0 then
                      (case border ic' row_length' result of
                         Inl e \<Rightarrow> Some (Inl e, h')
                       | Inr result' \<Rightarrow> Some (Inr (Some (rstrip result')), h'))
                    else Some (Inr (Some (rstrip result)), h')
                | _ \<Rightarrow> None)))"
| "tree_loop 0 h self i prefix is_last result = None"
| "tree_loop (Suc fuel) h self i prefix is_last result =
     (case deref h self of
        Some (TreeCompositeObj key ic cs lv) \<Rightarrow>
          if i < length cs then
            (case display_obj fuel h (cs ! i)
                    (prefix @ (if lv = 0 then [] else if is_last then ascii ''   '' else c_bar # ascii ''  ''))
                    (int i = int (length cs) - 1) of
               None \<Rightarrow> None
             | Some (Inl e, h') \<Rightarrow> Some (Inl e, h')
             | Some (Inr None, h') \<Rightarrow> Some (Inl TypeError, h')
             | Some (Inr (Some s), h') \<Rightarrow>
                 tree_loop fuel h' self (i + 1) prefix is_last (result @ s @ [c_newline]))
          else Some (Inr result, h)
      | _ \<Rightarrow> None)"
| "rectangle_loop 0 h self i prefix result = None"
| "rectangle_loop (Suc fuel) h self i prefix result =
     (case deref h self of
        Some (RectangleCompositeObj key ic cs lv row_length) \<Rightarrow>
          if i < length cs then
            (case display_obj fuel h (cs ! i)
                    (prefix @ (if lv = 0 then [] else c_bar # ascii ''  ''))
                    (int i = int (length cs) - 1) of
               None \<Rightarrow> None
             | Some (Inl e, h') \<Rightarrow> Some (Inl e, h')
             | Some (Inr r, h') \<Rightarrow>
                 rectangle_loop fuel h' self (i + 1) prefix (result @ str_result r @ [c_newline]))
          else Some (Inr result, h)
      | _ \<Rightarrow> None)"


text \<open>Creating an object: it gets the next free address.\<close>

definition alloc :: "store \<Rightarrow> obj \<Rightarrow> ref \<times> store" where
  "alloc h ob = (length h, h @ [ob])"

fun create_leaf_obj :: "factory \<Rightarrow> pystr option \<Rightarrow> scalar \<Rightarrow> icons \<Rightarrow> store \<Rightarrow> ref \<times> store" where
  "create_leaf_obj TreeNodeFactory key v ic h = alloc h (TreeLeafObj key v ic None)"
| "create_leaf_obj RectangleNodeFactory key v ic h = alloc h (RectangleLeafObj key v ic 60 None)"

fun create_composite_obj :: "factory \<Rightarrow> pystr option \<Rightarrow> icons \<Rightarrow> store \<Rightarrow> ref \<times> store" where
  "create_composite_obj TreeNodeFactory key ic h = alloc h (TreeCompositeObj key ic [] 0)"
| "create_composite_obj RectangleNodeFactory key ic h = alloc h (RectangleCompositeObj key ic [] 0 60)"

text \<open>
  \<open>add\<close> on the store: \<open>node.level = self.level + 1\<close> writes the child, then
  \<open>self.children.append(node)\<close> reads \<open>self\<close> again and writes it.
\<close>

fun set_level_obj :: "obj \<Rightarrow> int \<Rightarrow> obj" where
  "set_level_obj (TreeLeafObj k v ic lv) l = TreeLeafObj k v ic (Some l)"
| "set_level_obj (TreeCompositeObj k ic cs lv) l = TreeCompositeObj k ic cs l"
| "set_level_obj (RectangleLeafObj k v ic w lv) l = RectangleLeafObj k v ic w (Some l)"
| "set_level_obj (RectangleCompositeObj k ic cs lv w) l = RectangleCompositeObj k ic cs l w"

fun append_child :: "obj \<Rightarrow> ref \<Rightarrow> error + obj" where
  "append_child (TreeCompositeObj k ic cs lv) node = Inr (TreeCompositeObj k ic (cs @ [node]) lv)"
| "append_child (RectangleCompositeObj k ic cs lv w) node = Inr (RectangleCompositeObj k ic (cs @ [node]) lv w)"
| "append_child _ node = Inl AttributeError"

fun add_level :: "obj \<Rightarrow> error + int" where
  "add_level (TreeCompositeObj k ic cs lv) = Inr (lv + 1)"
| "add_level (RectangleCompositeObj k ic cs lv w) = Inr (lv + 1)"
| "add_level _ = Inl AttributeError"

definition add_obj :: "store \<Rightarrow> ref \<Rightarrow> ref \<Rightarrow> ((error + unit) \<times> store) option" where
  "add_obj h self node =
     (case deref h self of
        None \<Rightarrow> None
      | Some ob \<Rightarrow>
          (case add_level ob of
             Inl e \<Rightarrow> Some (Inl e, h)
           | Inr l \<Rightarrow>
               (case deref h node of
                  None \<Rightarrow> None
                | Some child \<Rightarrow>
                    (let h1 = h[node := set_level_obj child l]
                     in case deref h1 self of
                          None \<Rightarrow> None
                        | Some ob1 \<Rightarrow>
                            (case append_child ob1 node of
                               Inl e \<Rightarrow> Some (Inl e, h1)
                             | Inr ob2 \<Rightarrow> Some (Inr (), h1[self := ob2]))))))"

text \<open>\<open>JSONBuilder.build\<close> on the store; it returns the address of the node it built.\<close>

fun build_obj ::
    "factory \<Rightarrow> icons \<Rightarrow> json \<Rightarrow> pystr option \<Rightarrow> store \<Rightarrow> ((error + ref) \<times> store) option"
  and build_items_obj ::
    "factory \<Rightarrow> icons \<Rightarrow> (pystr \<times> json) list \<Rightarrow> ref \<Rightarrow> store \<Rightarrow> ((error + ref) \<times> store) option"
  and build_elems_obj ::
    "factory \<Rightarrow> icons \<Rightarrow> pystr option \<Rightarrow> nat \<Rightarrow> json list \<Rightarrow> ref \<Rightarrow> store
       \<Rightarrow> ((error + ref) \<times> store) option"
where
  "build_obj f ic (JObject kvs) key h =
     (case create_composite_obj f key ic h of (node, h1) \<Rightarrow> build_items_obj f ic kvs node h1)"
| "build_obj f ic (JArray vs) key h =
     (case create_composite_obj f key ic h of (node, h1) \<Rightarrow> build_elems_obj f ic key 0 vs node h1)"
| "build_obj f ic (JScalar v) key h =
     (case create_leaf_obj f key v ic h of (node, h1) \<Rightarrow> Some (Inr node, h1))"
| "build_items_obj f ic [] node h = Some (Inr node, h)"
| "build_items_obj f ic ((k, v) # kvs) node h =
     (case build_obj f ic v (Some k) h of
        None \<Rightarrow> None
      | Some (Inl e, h1) \<Rightarrow> Some (Inl e, h1)
      | Some (Inr child_node, h1) \<Rightarrow>
          (case add_obj h1 node child_node of
             None \<Rightarrow> None
           | Some (Inl e, h2) \<Rightarrow> Some (Inl e, h2)
           | Some (Inr u, h2) \<Rightarrow> build_items_obj f ic kvs node h2))"
| "build_elems_obj f ic key i [] node h = Some (Inr node, h)"
| "build_elems_obj f ic key i (v # vs) node h =
     (case build_obj f ic v (Some (str_key key @ ascii ''['' @ str_nat i @ ascii '']'')) h of
        None \<Rightarrow> None
      | Some (Inl e, h1) \<Rightarrow> Some (Inl e, h1)
      | Some (Inr child_node, h1) \<Rightarrow>
          (case add_obj h1 node child_node of
             None \<Rightarrow> None
           | Some (Inl e, h2) \<Rightarrow> Some (Inl e, h2)
           | Some (Inr u, h2) \<Rightarrow> build_elems_obj f ic key (i + 1) vs node h2))"

section \<open>Notions used in the statements\<close>

text \<open>All nodes strictly below a node, in the order a depth-first walk meets them.\<close>

fun descendants :: "node \<Rightarrow> node list" where
  "descendants (TreeCompositeNode k ic cs lv) = concat (map (\<lambda>c. c # descendants c) cs)"
| "descendants (RectangleCompositeNode k ic cs lv w) = concat (map (\<lambda>c. c # descendants c) cs)"
| "descendants _ = []"

text \<open>
  Every node of the tree is of the classes the factory \<open>f\<close> creates, carries the icon
  family \<open>ic\<close> and, in the rectangle family, the factory's row length 60.
\<close>

fun made_by :: "factory \<Rightarrow> icons \<Rightarrow> node \<Rightarrow> bool" where
  "made_by f ic (TreeLeafNode k v ic' lv) = (f = TreeNodeFactory \<and> ic' = ic)"
| "made_by f ic (TreeCompositeNode k ic' cs lv) =
     (f = TreeNodeFactory \<and> ic' = ic \<and> list_all (made_by f ic) cs)"
| "made_by f ic (RectangleLeafNode k v ic' w lv) =
     (f = RectangleNodeFactory \<and> ic' = ic \<and> w = 60)"
| "made_by f ic (RectangleCompositeNode k ic' cs lv w) =
     (f = RectangleNodeFactory \<and> ic' = ic \<and> w = 60 \<and> list_all (made_by f ic) cs)"

text \<open>The values for which \<open>build\<close> takes one of its two \<open>isinstance\<close> branches.\<close>

fun is_container :: "json \<Rightarrow> bool" where
  "is_container (JObject kvs) = True"
| "is_container (JArray vs) = True"
| "is_container (JScalar v) = False"

text \<open>
  The arguments \<open>(key, value)\<close> of the recursive calls that \<open>build\<close> makes on a value, in the
  order it makes them.
\<close>

fun build_calls :: "json \<Rightarrow> pystr option \<Rightarrow> (pystr option \<times> json) list" where
  "build_calls (JObject kvs) key = map (\<lambda>(k, v). (Some k, v)) kvs"
| "build_calls (JArray vs) key =
     map (\<lambda>(i, v). (Some (str_key key @ ascii ''['' @ str_nat i @ ascii '']''), v)) (enumerate 0 vs)"
| "build_calls (JScalar v) key = []"

text \<open>The node a recursive call returned, after \<open>add\<close> stamped it below a parent of level 0.\<close>

definition stamped :: "error + node \<Rightarrow> node" where
  "stamped r = set_level (projr r) 1"

text \<open>
  How deep a value is nested: 0 for a scalar and for an empty container, otherwise one more
  than the deepest of its property values or elements.
\<close>

fun nesting :: "json \<Rightarrow> nat" where
  "nesting (JObject kvs) = fold max (map (\<lambda>(k, v). Suc (nesting v)) kvs) 0"
| "nesting (JArray vs) = fold max (map (\<lambda>v. Suc (nesting v)) vs) 0"
| "nesting (JScalar v) = 0"

text \<open>The scalar \<open>None\<close> inside \<open>n\<close> arrays of one element each.\<close>

fun nested :: "nat \<Rightarrow> json" where
  "nested 0 = JScalar SNone"
| "nested (Suc n) = JArray [nested n]"


text \<open>\<open>s.startswith(p)\<close>.\<close>

definition startswith :: "pystr \<Rightarrow> pystr \<Rightarrow> bool" where
  "startswith s p = (take (length p) s = p)"

text \<open>
  The line a composite writes for itself (without the line break), and what it contributes
  before its children: nothing at level 0, the line and a line break otherwise.
\<close>

fun header_line :: "node \<Rightarrow> pystr \<Rightarrow> bool \<Rightarrow> pystr" where
  "header_line (TreeCompositeNode k ic cs lv) prefix is_last =
     prefix @ node_prefix is_last @ fst ic @ str_key k"
| "header_line (RectangleCompositeNode k ic cs lv w) prefix is_last =
     pad_row w (prefix @ [c_tee, c_dash] @ fst ic @ str_key k)"
| "header_line _ prefix is_last = []"

definition header :: "node \<Rightarrow> pystr \<Rightarrow> bool \<Rightarrow> pystr" where
  "header n prefix is_last =
     (if level n = Some 0 then [] else header_line n prefix is_last @ [c_newline])"

text \<open>What a composite appends to its own prefix for its children.\<close>

fun child_prefix :: "node \<Rightarrow> bool \<Rightarrow> pystr" where
  "child_prefix (TreeCompositeNode k ic cs lv) is_last =
     (if lv = 0 then [] else if is_last then ascii ''   '' else c_bar # ascii ''  '')"
| "child_prefix (RectangleCompositeNode k ic cs lv w) is_last =
     (if lv = 0 then [] else c_bar # ascii ''  '')"
| "child_prefix _ is_last = []"

text \<open>The text a \<open>display\<close> call contributes to its caller's result.\<close>

definition text_of :: "error + pystr option \<Rightarrow> pystr" where
  "text_of r = str_result (projr r)"

text \<open>
  A node that does not render as a root: if it is a composite its level is not 0, and the
  same holds for every composite below it.
\<close>

definition inner :: "node \<Rightarrow> bool" where
  "inner n = ((is_composite n \<longrightarrow> level n \<noteq> Some 0)
              \<and> (\<forall>d\<in>set (descendants n). is_composite d \<longrightarrow> level d \<noteq> Some 0))"

text \<open>
  The tree in which every level is replaced by the outcome of the test \<open>level == 0\<close>
  (0 when it holds, 1 when it does not) and the leaves carry no level.
\<close>

fun level_tests :: "node \<Rightarrow> node" where
  "level_tests (TreeLeafNode k v ic lv) = TreeLeafNode k v ic None"
| "level_tests (TreeCompositeNode k ic cs lv) =
     TreeCompositeNode k ic (map level_tests cs) (if lv = 0 then 0 else 1)"
| "level_tests (RectangleLeafNode k v ic w lv) = RectangleLeafNode k v ic w None"
| "level_tests (RectangleCompositeNode k ic cs lv w) =
     RectangleCompositeNode k ic (map level_tests cs) (if lv = 0 then 0 else 1) w"

text \<open>
  A stretch of text after a scan from left to right that replaces the three guide glyphs by
  the T-junction and the blank by the horizontal fill, and stops, leaving the rest as it
  is, at the first other character that is one of the two icons.
\<close>

fun scanned :: "icons \<Rightarrow> pystr \<Rightarrow> pystr" where
  "scanned ic [] = []"
| "scanned ic (c # cs) =
     (if c = c_bar \<or> c = c_tee \<or> c = c_elbow then c_up_tee # scanned ic cs
      else if c = c_space then c_dash # scanned ic cs
      else if [c] = fst ic \<or> [c] = snd ic then c # cs
      else c # scanned ic cs)"

text \<open>
  Modelled from the spec: the scan as the specification words it. \<open>spec_scan\<close> stops as
  soon as it meets either icon and otherwise replaces the guide glyphs and the blank;
  \<open>spec_backward_scan\<close> runs it from the end of the stretch backward.
\<close>

fun spec_scan :: "icons \<Rightarrow> pystr \<Rightarrow> pystr" where
  "spec_scan ic [] = []"
| "spec_scan ic (c # cs) =
     (if [c] = fst ic \<or> [c] = snd ic then c # cs
      else if c = c_bar \<or> c = c_tee \<or> c = c_elbow then c_up_tee # spec_scan ic cs
      else if c = c_space then c_dash # spec_scan ic cs
      else c # spec_scan ic cs)"

definition spec_backward_scan :: "icons \<Rightarrow> pystr \<Rightarrow> pystr" where
  "spec_backward_scan ic s = rev (spec_scan ic (rev s))"

text \<open>The rows of a text, each followed by a line break.\<close>

definition lines_text :: "pystr list \<Rightarrow> pystr" where
  "lines_text rows = concat (map (\<lambda>r. r @ [c_newline]) rows)"

text \<open>The row of a node: its line as \<open>display\<close> builds it, before any padding.\<close>

fun row_text :: "node \<Rightarrow> pystr \<Rightarrow> bool \<Rightarrow> pystr" where
  "row_text (TreeLeafNode k v ic lv) prefix is_last =
     prefix @ node_prefix is_last @ snd ic @ str_key k
       @ (if v = SNone then [] else ascii '': '' @ str_scalar v)"
| "row_text (TreeCompositeNode k ic cs lv) prefix is_last =
     prefix @ node_prefix is_last @ fst ic @ str_key k"
| "row_text (RectangleLeafNode k v ic w lv) prefix is_last =
     prefix @ node_prefix is_last @ snd ic @ str_key k
       @ (if v = SNone then [] else ascii '': '' @ str_scalar v)"
| "row_text (RectangleCompositeNode k ic cs lv w) prefix is_last =
     prefix @ [c_tee, c_dash] @ fst ic @ str_key k"

text \<open>
  Every row of a rectangle-style node handed the prefix \<open>prefix\<close>, and of the nodes below it,
  is shorter than the row length of its node.
\<close>

fun fits :: "node \<Rightarrow> pystr \<Rightarrow> bool" where
  "fits (RectangleLeafNode k v ic w lv) prefix =
     (int (length (row_text (RectangleLeafNode k v ic w lv) prefix True)) < w)"
| "fits (RectangleCompositeNode k ic cs lv w) prefix =
     ((lv = 0 \<or> int (length (row_text (RectangleCompositeNode k ic cs lv w) prefix True)) < w)
      \<and> list_all (\<lambda>c. fits c (prefix @ child_prefix (RectangleCompositeNode k ic cs lv w) True)) cs)"
| "fits _ prefix = False"

text \<open>Rows of 61 characters that end with the right border and hold no line break.\<close>

definition good_rows :: "pystr list \<Rightarrow> bool" where
  "good_rows rows = (\<forall>r\<in>set rows. length r = 61 \<and> last r = c_right \<and> c_newline \<notin> set r)"

text \<open>
  No line break in what a node, or a node below it, writes after its prefix: the connector,
  the icon, the key and the text of the value.
\<close>

fun no_breaks :: "node \<Rightarrow> bool" where
  "no_breaks (TreeLeafNode k v ic lv) =
     (c_newline \<notin> set (row_text (TreeLeafNode k v ic lv) [] True))"
| "no_breaks (TreeCompositeNode k ic cs lv) =
     (c_newline \<notin> set (row_text (TreeCompositeNode k ic cs lv) [] True) \<and> list_all no_breaks cs)"
| "no_breaks (RectangleLeafNode k v ic w lv) =
     (c_newline \<notin> set (row_text (RectangleLeafNode k v ic w lv) [] True))"
| "no_breaks (RectangleCompositeNode k ic cs lv w) =
     (c_newline \<notin> set (row_text (RectangleCompositeNode k ic cs lv w) [] True) \<and> list_all no_breaks cs)"

text \<open>
  The places of the tree style: for every node that writes a line, in the order of the
  lines, the prefix it is handed and whether it is the last of its siblings. A composite of
  level 0 writes no line of its own; a child is the last one when no sibling follows it.
\<close>

fun places :: "node \<Rightarrow> pystr \<Rightarrow> bool \<Rightarrow> (pystr \<times> bool) list"
  and places_list :: "node list \<Rightarrow> pystr \<Rightarrow> (pystr \<times> bool) list"
where
  "places (TreeLeafNode k v ic lv) prefix is_last = [(prefix, is_last)]"
| "places (TreeCompositeNode k ic cs lv) prefix is_last =
     (if lv = 0 then [] else [(prefix, is_last)])
       @ places_list cs (prefix @ child_prefix (TreeCompositeNode k ic cs lv) is_last)"
| "places (RectangleLeafNode k v ic w lv) prefix is_last = []"
| "places (RectangleCompositeNode k ic cs lv w) prefix is_last = []"
| "places_list [] prefix = []"
| "places_list (c # cs) prefix = places c prefix (cs = []) @ places_list cs prefix"

text \<open>
  A row at a place: it begins with the prefix of the place followed by the connector of
  the place, the elbow for a last sibling and the tee otherwise, it does not begin with the
  prefix followed by the other connector, and it holds no line break.
\<close>

definition line_at :: "pystr \<Rightarrow> pystr \<times> bool \<Rightarrow> bool" where
  "line_at row place =
     (case place of (q, b) \<Rightarrow>
        startswith row (q @ (if b then [c_elbow, c_dash] else [c_tee, c_dash]))
        \<and> \<not> startswith row (q @ (if b then [c_tee, c_dash] else [c_elbow, c_dash]))
        \<and> c_newline \<notin> set row)"

text \<open>The store holds the tree \<open>n\<close> at \<open>a\<close>, in objects at addresses from \<open>lo\<close> up to below \<open>hi\<close>.\<close>

fun held :: "nat \<Rightarrow> nat \<Rightarrow> store \<Rightarrow> ref \<Rightarrow> node \<Rightarrow> bool" where
  "held lo hi h a (TreeLeafNode k v ic lv) =
     (lo \<le> a \<and> a < hi \<and> deref h a = Some (TreeLeafObj k v ic lv))"
| "held lo hi h a (RectangleLeafNode k v ic w lv) =
     (lo \<le> a \<and> a < hi \<and> deref h a = Some (RectangleLeafObj k v ic w lv))"
| "held lo hi h a (TreeCompositeNode k ic cs lv) =
     (lo \<le> a \<and> a < hi \<and>
      (case deref h a of
         Some (TreeCompositeObj k' ic' rs lv') \<Rightarrow>
           k' = k \<and> ic' = ic \<and> lv' = lv \<and> list_all2 (\<lambda>r c. held (Suc a) hi h r c) rs cs
       | _ \<Rightarrow> False))"
| "held lo hi h a (RectangleCompositeNode k ic cs lv w) =
     (lo \<le> a \<and> a < hi \<and>
      (case deref h a of
         Some (RectangleCompositeObj k' ic' rs lv' w') \<Rightarrow>
           k' = k \<and> ic' = ic \<and> lv' = lv \<and> w' = w \<and> list_all2 (\<lambda>r c. held (Suc a) hi h r c) rs cs
       | _ \<Rightarrow> False))"

text \<open>
  With fuel \<open>F\<close> or more, \<open>display\<close> on the object at \<open>r\<close> returns what the value model returns
  on the tree \<open>c\<close>, and leaves the store as it was.
\<close>

definition renders :: "nat \<Rightarrow> store \<Rightarrow> ref \<Rightarrow> node \<Rightarrow> bool" where
  "renders F h r c = (\<forall>fuel\<ge>F. \<forall>p l. display_obj fuel h r p l = Some (display c p l, h))"

section \<open>The builder\<close>

lemma children_set_level [simp]: "children (set_level n l) = children n"
  by (cases n) simp_all

lemma descendants_set_level [simp]: "descendants (set_level n l) = descendants n"
  by (cases n) simp_all

lemma level_set_level [simp]: "level (set_level n l) = Some l"
  by (cases n) simp_all

lemma is_composite_set_level [simp]: "is_composite (set_level n l) = is_composite n"
  by (cases n) simp_all

lemma made_by_set_level [simp]: "made_by f ic (set_level n l) = made_by f ic n"
  by (cases n) simp_all

lemma descendants_children: "descendants n = concat (map (\<lambda>c. c # descendants c) (children n))"
  by (cases n) simp_all

lemma made_by_children: "made_by f ic n \<Longrightarrow> list_all (made_by f ic) (children n)"
  by (cases n) auto

lemma add_composite:
  assumes "is_composite n"
  shows "\<exists>n'. add n c = Inr n' \<and> is_composite n' \<and> level n' = level n
           \<and> children n' = children n @ [set_level c (the (level n) + 1)]
           \<and> (made_by f ic n \<longrightarrow> made_by f ic c \<longrightarrow> made_by f ic n')"
  using assms by (cases n) auto

lemma made_by_create_composite [simp]: "made_by f ic (create_composite_node f key ic)"
  by (cases f) simp_all

lemma made_by_create_leaf [simp]: "made_by f ic (create_leaf_node f key v ic)"
  by (cases f) simp_all

lemma build_shape:
  "\<exists>n. build f ic j key = Inr n \<and> made_by f ic n
      \<and> level n = (if is_container j then Some 0 else None)
      \<and> is_composite n = is_container j
      \<and> children n = map (\<lambda>(k, v). stamped (build f ic v k)) (build_calls j key)"
  "is_composite node \<Longrightarrow> level node = Some 0 \<Longrightarrow> made_by f ic node \<Longrightarrow>
     \<exists>n. build_items f ic kvs node = Inr n \<and> made_by f ic n \<and> level n = Some 0 \<and> is_composite n
       \<and> children n = children node @ map (\<lambda>(k, v). stamped (build f ic v (Some k))) kvs"
  "is_composite node \<Longrightarrow> level node = Some 0 \<Longrightarrow> made_by f ic node \<Longrightarrow>
     \<exists>n. build_elems f ic key i vs node = Inr n \<and> made_by f ic n \<and> level n = Some 0 \<and> is_composite n
       \<and> children n = children node
            @ map (\<lambda>(i, v). stamped (build f ic v (Some (str_key key @ ascii ''['' @ str_nat i @ ascii '']''))))
                (enumerate i vs)"
proof (induction f ic j key and f ic kvs node and f ic key i vs node
       rule: build_build_items_build_elems.induct)
  case (1 f ic kvs key)
  have c: "is_composite (create_composite_node f key ic)" "level (create_composite_node f key ic) = Some 0"
    "children (create_composite_node f key ic) = []"
    by (cases f; simp)+
  from 1[OF c(1,2) made_by_create_composite] show ?case
    by (auto simp: c comp_def case_prod_unfold)
next
  case (2 f ic vs key)
  have c: "is_composite (create_composite_node f key ic)" "level (create_composite_node f key ic) = Some 0"
    "children (create_composite_node f key ic) = []"
    by (cases f; simp)+
  from 2[OF c(1,2) made_by_create_composite] show ?case
    by (auto simp: c comp_def case_prod_unfold)
next
  case (3 f ic v key)
  show ?case by (cases f) simp_all
next
  case (4 f ic node)
  then show ?case by simp
next
  case (5 f ic k v kvs node)
  from 5(1) obtain c where c: "build f ic v (Some k) = Inr c" "made_by f ic c" by blast
  from add_composite[OF 5(3), of c f ic] 5(4,5) c obtain n' where
    n': "add node c = Inr n'" "is_composite n'" "level n' = Some 0"
        "children n' = children node @ [set_level c 1]" "made_by f ic n'"
    by auto
  from 5(2)[OF c(1) n'(1) n'(2,3,5)] show ?case
    by (auto simp: c n' stamped_def)
next
  case (6 f ic key i node)
  then show ?case by simp
next
  case (7 f ic key i v vs node)
  let ?k = "Some (str_key key @ ascii ''['' @ str_nat i @ ascii '']'')"
  from 7(1) obtain c where c: "build f ic v ?k = Inr c" "made_by f ic c" by blast
  from add_composite[OF 7(3), of c f ic] 7(4,5) c obtain n' where
    n': "add node c = Inr n'" "is_composite n'" "level n' = Some 0"
        "children n' = children node @ [set_level c 1]" "made_by f ic n'"
    by auto
  from 7(2)[OF c(1) n'(1) n'(2,3,5)] show ?case
    by (auto simp: c n' stamped_def)
qed


lemma build_Inr: "\<exists>n. build f ic j key = Inr n"
  using build_shape(1)[of f ic j key] by blast

lemma build_descendants_level:
  "build f ic j key = Inr n \<Longrightarrow> d \<in> set (descendants n) \<Longrightarrow> level d = Some 1"
proof (induction j arbitrary: key n d)
  case (JObject kvs)
  from build_shape(1)[of f ic "JObject kvs" key] JObject.prems(1)
  have ch: "children n = map (\<lambda>(k, v). stamped (build f ic v k)) (build_calls (JObject kvs) key)"
    by auto
  from JObject.prems(2) obtain c where c: "c \<in> set (children n)" "d = c \<or> d \<in> set (descendants c)"
    by (auto simp: descendants_children[of n])
  from c(1) ch obtain k v where kv: "(k, v) \<in> set kvs" "c = stamped (build f ic v (Some k))"
    by auto
  obtain m where m: "build f ic v (Some k) = Inr m" using build_Inr by blast
  have cm: "c = set_level m 1" by (simp add: kv m stamped_def)
  show ?case
  proof (cases "d = c")
    case True
    then show ?thesis by (simp add: cm)
  next
    case False
    with c(2) cm have "d \<in> set (descendants m)" by simp
    from JObject.IH[OF kv(1) _ m this] show ?thesis by simp
  qed
next
  case (JArray vs)
  from build_shape(1)[of f ic "JArray vs" key] JArray.prems(1)
  have ch: "children n = map (\<lambda>(k, v). stamped (build f ic v k)) (build_calls (JArray vs) key)"
    by auto
  from JArray.prems(2) obtain c where c: "c \<in> set (children n)" "d = c \<or> d \<in> set (descendants c)"
    by (auto simp: descendants_children[of n])
  from c(1) ch obtain k v where kv: "v \<in> set vs" "c = stamped (build f ic v k)"
    by (auto simp: in_set_enumerate_eq) (metis nth_mem)
  obtain m where m: "build f ic v k = Inr m" using build_Inr by blast
  have cm: "c = set_level m 1" by (simp add: kv m stamped_def)
  show ?case
  proof (cases "d = c")
    case True
    then show ?thesis by (simp add: cm)
  next
    case False
    with c(2) cm have "d \<in> set (descendants m)" by simp
    from JArray.IH[OF kv(1) m this] show ?thesis .
  qed
next
  case (JScalar v)
  then show ?case by (cases f) auto
qed








lemma nesting_nested [simp]: "nesting (nested n) = n"
  by (induction n) simp_all




text \<open>
  C6 (amended). The node returned by the top-level \<open>build\<close> call is a composite exactly
  when the value is an object or an array; for a scalar or null it is a leaf.
\<close>

theorem build_composite_iff:
  "\<exists>n. build f ic j key = Inr n \<and> is_composite n = is_container j"
  using build_shape(1)[of f ic j key] by blast

theorem build_composite_iff_witness:
  "\<exists>n. build RectangleNodeFactory ([c_space], [c_space]) (JArray []) None = Inr n
     \<and> is_composite n"
  using build_composite_iff [of RectangleNodeFactory "([c_space], [c_space])" "JArray []" None]
  by simp

theorem build_scalar_not_composite:
  "build TreeNodeFactory ([c_space], [c_space]) (JScalar (SInt 42)) None
     = Inr (TreeLeafNode None (SInt 42) ([c_space], [c_space]) None)
   \<and> \<not> is_composite (TreeLeafNode None (SInt 42) ([c_space], [c_space]) None)"
  by simp

text \<open>
  C1. On the object \<open>{"a": {"b": 1}}\<close> the level of the node for \<open>b\<close> is 1, the same as the
  level of its parent, the node for \<open>a\<close>: \<open>b\<close> was stamped while \<open>a\<close> still had level 0,
  and attaching \<open>a\<close> to the root afterwards stamped \<open>a\<close> alone. The same holds in both
  families of classes.
\<close>

theorem build_grandchild_level:
  "build TreeNodeFactory ic (JObject [(ascii ''a'', JObject [(ascii ''b'', JScalar (SInt 1))])]) None
     = Inr (TreeCompositeNode None ic
              [TreeCompositeNode (Some (ascii ''a'')) ic
                 [TreeLeafNode (Some (ascii ''b'')) (SInt 1) ic (Some 1)] 1] 0)
   \<and> build RectangleNodeFactory ic (JObject [(ascii ''a'', JObject [(ascii ''b'', JScalar (SInt 1))])]) None
     = Inr (RectangleCompositeNode None ic
              [RectangleCompositeNode (Some (ascii ''a'')) ic
                 [RectangleLeafNode (Some (ascii ''b'')) (SInt 1) ic 60 (Some 1)] 1 60] 0 60)"
  by simp

section \<open>The tree style\<close>

lemma startswith_append [simp]: "startswith (p @ s) p"
  by (simp add: startswith_def)

lemma startswith_iff: "startswith s p \<longleftrightarrow> (\<exists>z. s = p @ z)"
proof
  assume "startswith s p"
  then have "s = p @ drop (length p) s"
    unfolding startswith_def by (metis append_take_drop_id)
  then show "\<exists>z. s = p @ z" ..
next
  assume "\<exists>z. s = p @ z"
  then show "startswith s p" by (auto simp: startswith_def)
qed

lemma rstrip_keep: "\<not> isspace x \<Longrightarrow> rstrip (a @ x # b) = a @ x # rstrip b"
  by (simp add: rstrip_def dropWhile_append)

lemma rstrip_prefix: "\<exists>z. rstrip (a @ b) = rstrip a @ z"
proof (cases "\<forall>x\<in>set b. isspace x")
  case True
  then show ?thesis by (simp add: rstrip_def dropWhile_append)
next
  case False
  have "\<exists>z. a = rstrip a @ z"
    unfolding rstrip_def by (metis rev_append rev_rev_ident takeWhile_dropWhile_id)
  moreover from False have "rstrip (a @ b) = a @ rstrip b"
    by (auto simp add: rstrip_def dropWhile_append)
  ultimately show ?thesis by (metis append.assoc)
qed

lemma isspace_glyphs [simp]: "\<not> isspace c_dash" "\<not> isspace c_right" "\<not> isspace c_bottom_right"
  by (simp_all add: isspace_def)

lemma tree_children_blocks:
  assumes "\<forall>c\<in>set cs. \<forall>p l. \<exists>s. display c p l = Inr (Some s)"
  shows "tree_children cs i n lv prefix is_last result =
           Inr (result @ concat (map (\<lambda>(j, c). text_of (display c
                  (prefix @ (if lv = 0 then [] else if is_last then ascii ''   '' else c_bar # ascii ''  ''))
                  (int j = int n - 1)) @ [c_newline]) (enumerate i cs)))"
  using assms
proof (induction cs arbitrary: i result)
  case Nil
  then show ?case by simp
next
  case (Cons c cs)
  let ?p = "prefix @ (if lv = 0 then [] else if is_last then ascii ''   '' else c_bar # ascii ''  '')"
  from Cons.prems obtain s where s: "display c ?p (int i = int n - 1) = Inr (Some s)"
    by (meson list.set_intros(1))
  from Cons.prems have rest: "\<forall>c\<in>set cs. \<forall>p l. \<exists>s. display c p l = Inr (Some s)" by simp
  show ?case
    using s Cons.IH[OF rest, of "Suc i" "result @ s @ [c_newline]"]
    by (simp add: text_of_def)
qed

lemma tree_display_total:
  "made_by TreeNodeFactory ic n \<Longrightarrow> \<exists>s. display n p l = Inr (Some s)"
proof (induction n arbitrary: p l)
  case (TreeLeafNode k v ic' lv)
  then show ?case by simp
next
  case (TreeCompositeNode k ic' cs lv)
  have "\<forall>c\<in>set cs. \<forall>p l. \<exists>s. display c p l = Inr (Some s)"
    using TreeCompositeNode by (auto simp: list_all_iff)
  from tree_children_blocks[OF this] show ?case by simp
next
  case (RectangleLeafNode k v ic' w lv)
  then show ?case by simp
next
  case (RectangleCompositeNode k ic' cs lv w)
  then show ?case by simp
qed


lemma made_by_descendants:
  "made_by f ic n \<Longrightarrow> d \<in> set (descendants n) \<Longrightarrow> made_by f ic d"
proof (induction n arbitrary: d)
  case (TreeCompositeNode k ic' cs lv)
  from TreeCompositeNode.prems(2) obtain c where c: "c \<in> set cs" "d = c \<or> d \<in> set (descendants c)"
    by auto
  from TreeCompositeNode.prems(1) c(1) have "made_by f ic c" by (auto simp: list_all_iff)
  with c TreeCompositeNode.IH show ?case by blast
next
  case (RectangleCompositeNode k ic' cs lv w)
  from RectangleCompositeNode.prems(2) obtain c where c: "c \<in> set cs" "d = c \<or> d \<in> set (descendants c)"
    by auto
  from RectangleCompositeNode.prems(1) c(1) have "made_by f ic c" by (auto simp: list_all_iff)
  with c RectangleCompositeNode.IH show ?case by blast
qed simp_all

lemma startswith_same_head:
  "startswith s (p @ x # xs) \<Longrightarrow> startswith s (p @ y # ys) \<Longrightarrow> x = y"
  by (auto simp: startswith_iff)

lemma rstrip_startswith:
  assumes "q \<noteq> []" and "\<not> isspace (last q)"
  shows "startswith (rstrip (q @ t)) q"
proof -
  from assms(1) have q: "q = butlast q @ [last q]" by simp
  have "rstrip (q @ t) = butlast q @ last q # rstrip t"
    by (subst q) (simp add: rstrip_keep[OF assms(2)])
  then have "rstrip (q @ t) = q @ rstrip t"
    using q by (metis append.assoc append_Cons append_Nil)
  then show ?thesis by (simp add: startswith_iff)
qed

lemma tree_composite_display:
  assumes "made_by TreeNodeFactory ic (TreeCompositeNode k ic' cs lv)"
  shows "display (TreeCompositeNode k ic' cs lv) p l =
           Inr (Some (rstrip (header (TreeCompositeNode k ic' cs lv) p l
             @ concat (map (\<lambda>b. b @ [c_newline])
                 (map (\<lambda>(j, c). text_of (display c (p @ child_prefix (TreeCompositeNode k ic' cs lv) l)
                                     (int j = int (length cs) - 1))) (enumerate 0 cs))))))"
proof -
  have "\<forall>c\<in>set cs. \<forall>p l. \<exists>s. display c p l = Inr (Some s)"
    using assms tree_display_total[of ic] by (simp add: list_all_iff)
  from tree_children_blocks[OF this] show ?thesis
    by (simp add: header_def node_prefix_def map_concat comp_def case_prod_unfold)
qed

lemma descendants_trans:
  "x \<in> set (descendants n) \<Longrightarrow> n \<in> set (descendants r) \<Longrightarrow> x \<in> set (descendants r)"
proof (induction r)
  case (TreeCompositeNode k ic cs lv)
  from TreeCompositeNode.prems(2) obtain c where c: "c \<in> set cs" "n = c \<or> n \<in> set (descendants c)"
    by auto
  with TreeCompositeNode.IH TreeCompositeNode.prems(1) have "x \<in> set (descendants c)" by blast
  with c(1) show ?case by auto
next
  case (RectangleCompositeNode k ic cs lv w)
  from RectangleCompositeNode.prems(2) obtain c where c: "c \<in> set cs" "n = c \<or> n \<in> set (descendants c)"
    by auto
  with RectangleCompositeNode.IH RectangleCompositeNode.prems(1) have "x \<in> set (descendants c)" by blast
  with c(1) show ?case by auto
qed simp_all

lemma build_made_by: "build f ic j key = Inr n \<Longrightarrow> made_by f ic n"
  using build_shape(1)[of f ic j key] by auto

lemma build_root_level: "build f ic j key = Inr n \<Longrightarrow> level n = (if is_composite n then Some 0 else None)"
  using build_shape(1)[of f ic j key] by auto

section \<open>The rectangle style\<close>

lemma rectangle_children_blocks:
  assumes "\<forall>c\<in>set cs. \<forall>p l. \<exists>r. display c p l = Inr r"
  shows "rectangle_children cs i n lv prefix result =
           Inr (result @ concat (map (\<lambda>(j, c). text_of (display c
                  (prefix @ (if lv = 0 then [] else c_bar # ascii ''  ''))
                  (int j = int n - 1)) @ [c_newline]) (enumerate i cs)))"
  using assms
proof (induction cs arbitrary: i result)
  case Nil
  then show ?case by simp
next
  case (Cons c cs)
  let ?p = "prefix @ (if lv = 0 then [] else c_bar # ascii ''  '')"
  from Cons.prems obtain r where r: "display c ?p (int i = int n - 1) = Inr r"
    by (meson list.set_intros(1))
  from Cons.prems have rest: "\<forall>c\<in>set cs. \<forall>p l. \<exists>r. display c p l = Inr r" by simp
  show ?case
    using r Cons.IH[OF rest, of "Suc i" "result @ str_result r @ [c_newline]"]
    by (simp add: text_of_def)
qed

lemma inner_child:
  "inner n \<Longrightarrow> c \<in> set (children n) \<Longrightarrow> inner c"
  unfolding inner_def by (cases n) auto

lemma rectangle_inner_total:
  "made_by RectangleNodeFactory ic n \<Longrightarrow> inner n \<Longrightarrow> \<exists>r. display n p l = Inr r"
proof (induction n arbitrary: p l)
  case (RectangleLeafNode k v ic' w lv)
  then show ?case by (simp add: Let_def)
next
  case (RectangleCompositeNode k ic' cs lv w)
  have "\<forall>c\<in>set cs. \<forall>p l. \<exists>r. display c p l = Inr r"
  proof (intro ballI allI)
    fix c p l assume c: "c \<in> set cs"
    with RectangleCompositeNode.prems(1) have "made_by RectangleNodeFactory ic c"
      by (auto simp: list_all_iff)
    moreover from inner_child[OF RectangleCompositeNode.prems(2)] c have "inner c" by simp
    ultimately show "\<exists>r. display c p l = Inr r" using RectangleCompositeNode.IH[OF c] by blast
  qed
  from rectangle_children_blocks[OF this] RectangleCompositeNode.prems(2) show ?case
    by (simp add: inner_def)
qed simp_all

lemma rectangle_composite_display:
  assumes "made_by RectangleNodeFactory ic (RectangleCompositeNode k ic' cs lv w)"
    and "inner (RectangleCompositeNode k ic' cs lv w)"
  shows "display (RectangleCompositeNode k ic' cs lv w) p l =
           Inr (Some (rstrip (header (RectangleCompositeNode k ic' cs lv w) p l
             @ concat (map (\<lambda>b. b @ [c_newline])
                 (map (\<lambda>(j, c). text_of (display c (p @ child_prefix (RectangleCompositeNode k ic' cs lv w) l)
                                     (int j = int (length cs) - 1))) (enumerate 0 cs))))))"
proof -
  have "\<forall>c\<in>set cs. \<forall>p l. \<exists>r. display c p l = Inr r"
  proof (intro ballI allI)
    fix c p l assume c: "c \<in> set cs"
    with assms(1) have "made_by RectangleNodeFactory ic c" by (auto simp: list_all_iff)
    moreover from inner_child[OF assms(2)] c have "inner c" by simp
    ultimately show "\<exists>r. display c p l = Inr r" by (rule rectangle_inner_total)
  qed
  from rectangle_children_blocks[OF this] assms(2) show ?thesis
    by (simp add: header_def inner_def map_concat comp_def case_prod_unfold)
qed

lemma startswith_rstrip: "startswith (rstrip (a @ b)) (rstrip a)"
  using rstrip_prefix[of a b] by (auto simp: startswith_iff)

lemma composite_header_rendered:
  assumes "made_by f ic n" and "inner n" and "is_composite n"
  shows "\<exists>s. display n p l = Inr (Some s) \<and> startswith s (rstrip (header_line n p l))"
proof (cases n)
  case (TreeCompositeNode k ic' cs lv)
  with assms(1) have mb: "made_by TreeNodeFactory ic (TreeCompositeNode k ic' cs lv)"
    by (cases f) auto
  from assms(2) have "level n \<noteq> Some 0" by (simp add: inner_def TreeCompositeNode)
  then have h: "header n p l = header_line n p l @ [c_newline]" by (simp add: header_def)
  show ?thesis
    using tree_composite_display[OF mb, of p l] startswith_rstrip
    unfolding TreeCompositeNode[symmetric] h by (metis append.assoc)
next
  case (RectangleCompositeNode k ic' cs lv w)
  with assms(1) have mb: "made_by RectangleNodeFactory ic (RectangleCompositeNode k ic' cs lv w)"
    by (cases f) auto
  from assms(2) have "level n \<noteq> Some 0" by (simp add: inner_def RectangleCompositeNode)
  then have h: "header n p l = header_line n p l @ [c_newline]" by (simp add: header_def)
  show ?thesis
    using rectangle_composite_display[OF mb assms(2)[unfolded RectangleCompositeNode], of p l]
      startswith_rstrip
    unfolding RectangleCompositeNode[symmetric] h by (metis append.assoc)
qed (use assms in simp_all)

lemma inner_descendant:
  assumes "\<forall>d\<in>set (descendants r). level d = Some 1" and "n \<in> set (descendants r)"
  shows "inner n"
  unfolding inner_def using assms descendants_trans[of _ n r] by fastforce


subsection \<open>Evaluation on concrete trees\<close>

lemma replicate_numeral: "replicate (numeral k) x = x # replicate (pred_numeral k) x"
  by (simp add: numeral_eq_Suc)

lemma list_update_Cons_numeral: "(x # xs)[numeral k := y] = x # xs[pred_numeral k := y]"
  by (simp add: numeral_eq_Suc)

lemmas eval_simps = ascii_def node_prefix_def pad_row_def str_nat.simps str_int_def border_def
  set_item_def get_item_def list_index_def rstrip_def isspace_def replicate_numeral
  list_update_Cons_numeral


text \<open>
  C5. For the empty array at the root the tree style returns the empty string, but the
  rectangle style raises: the root has level 0, so the border pass runs on the empty
  text and its first assignment, to index 0 of an empty list, raises \<open>IndexError\<close>.
\<close>

theorem empty_root_rectangle_raises:
  "build RectangleNodeFactory ic (JArray []) None = Inr (RectangleCompositeNode None ic [] 0 60)
   \<and> display (RectangleCompositeNode None ic [] 0 60) [] True = Inl IndexError
   \<and> build TreeNodeFactory ic (JArray []) None = Inr (TreeCompositeNode None ic [] 0)
   \<and> display (TreeCompositeNode None ic [] 0) [] True = Inr (Some [])"
  by (simp add: border_def set_item_def list_index_def rstrip_def)


text \<open>
  C2. A rectangle leaf whose row is not shorter than the row length returns \<open>None\<close>, no
  error. On the object \<open>{"a": 1, "k": "xxx...x"}\<close> (sixty times x) with the default icons the
  root's \<open>display\<close> returns normally: the second line of its text is the word None, cut
  short by the bottom-right corner that the border pass writes over its last letter.
\<close>

theorem long_row_prints_None:
  "display (RectangleLeafNode (Some (ascii ''k'')) (SStr (replicate 60 120)) ic 60 lv) prefix is_last
     = Inr None
   \<and> build RectangleNodeFactory ([c_space], [c_space])
        (JObject [(ascii ''a'', JScalar (SInt 1)), (ascii ''k'', JScalar (SStr (replicate 60 120)))]) None
     = Inr (RectangleCompositeNode None ([c_space], [c_space])
              [RectangleLeafNode (Some (ascii ''a'')) (SInt 1) ([c_space], [c_space]) 60 (Some 1),
               RectangleLeafNode (Some (ascii ''k'')) (SStr (replicate 60 120)) ([c_space], [c_space]) 60 (Some 1)]
              0 60)
   \<and> display (RectangleCompositeNode None ([c_space], [c_space])
              [RectangleLeafNode (Some (ascii ''a'')) (SInt 1) ([c_space], [c_space]) 60 (Some 1),
               RectangleLeafNode (Some (ascii ''k'')) (SStr (replicate 60 120)) ([c_space], [c_space]) 60 (Some 1)]
              0 60) [] True
     = Inr (Some ([c_top_left, c_dash, c_space, 97, 58, c_elbow, 49] @ replicate 53 c_dash
                   @ [c_top_right, c_newline] @ ascii ''Non'' @ [c_bottom_right]))"
proof -
  have "display (RectangleLeafNode (Some (ascii ''k'')) (SStr (replicate 60 120)) ic 60 lv) prefix is_last
     = Inr None"
    by (simp add: Let_def node_prefix_def)
  then show ?thesis by (simp add: eval_simps)
qed


subsection \<open>The border scan\<close>

lemma list_index_neg:
  "0 < k \<Longrightarrow> k \<le> n \<Longrightarrow> list_index n (- int k) = Some (n - k)"
  by (auto simp: list_index_def nat_diff_distrib')

lemma list_index_mid:
  "post \<noteq> [] \<Longrightarrow>
   list_index (length (pre @ c # cs @ post)) (- int (length (c # cs)) - int (length post))
     = Some (length pre)"
proof -
  assume "post \<noteq> []"
  have e: "- int (length (c # cs)) - int (length post) = - int (length (c # cs) + length post)"
    by simp
  show ?thesis unfolding e by (subst list_index_neg) auto
qed

lemma get_item_mid:
  "post \<noteq> [] \<Longrightarrow>
   get_item (pre @ c # cs @ post) (- int (length (c # cs)) - int (length post)) = Inr c"
  unfolding get_item_def by (subst list_index_mid) auto

lemma set_item_mid:
  "post \<noteq> [] \<Longrightarrow>
   set_item (pre @ c # cs @ post) (- int (length (c # cs)) - int (length post)) v
     = Inr (pre @ v # cs @ post)"
  unfolding set_item_def by (subst list_index_mid) auto

lemma border_scan_segment:
  "post \<noteq> [] \<Longrightarrow>
   border_scan ic [- int (length seg) - int (length post) .. - 1 - int (length post)] (pre @ seg @ post)
     = Inr (pre @ scanned ic seg @ post)"
proof (induction seg arbitrary: pre)
  case Nil
  then show ?case by simp
next
  case (Cons c cs)
  let ?lo = "- int (length (c # cs)) - int (length post)"
  let ?lo' = "- int (length cs) - int (length post)"
  let ?hi = "- 1 - int (length post)"
  have range: "[?lo .. ?hi] = ?lo # [?lo' .. ?hi]"
    by (subst upto.simps) (simp add: algebra_simps)
  have g: "get_item (pre @ c # cs @ post) ?lo = Inr c"
    using Cons.prems by (rule get_item_mid)
  have s: "set_item (pre @ c # cs @ post) ?lo v = Inr (pre @ v # cs @ post)" for v
    using Cons.prems by (rule set_item_mid)
  have ih: "border_scan ic [?lo' .. ?hi] (pre @ v # cs @ post) = Inr (pre @ v # scanned ic cs @ post)" for v
    using Cons.IH[OF Cons.prems, of "pre @ [v]"] by simp
  have "border_scan ic (?lo # [?lo' .. ?hi]) (pre @ c # cs @ post)
          = Inr (pre @ scanned ic (c # cs) @ post)"
    unfolding border_scan.simps g sum.case s ih by simp
  then show ?case unfolding range by simp
qed


lemma set_item_pos:
  "length pre = k \<Longrightarrow> set_item (pre @ c # post) (int k) v = Inr (pre @ v # post)"
  by (auto simp: set_item_def list_index_def)

lemma set_item_neg:
  assumes "i = - int (length cs) - 2"
  shows "set_item (pre @ c # cs @ [d]) i v = Inr (pre @ v # cs @ [d])"
proof -
  have "i = - int (length (c # cs)) - int (length [d])" using assms by auto
  then show ?thesis using set_item_mid[of "[d]" pre c cs v] by simp
qed

lemma border_scan_last:
  assumes "length seg = W"
  shows "border_scan ic [- int W - 1 .. - 2] (pre @ seg @ [d]) = Inr (pre @ scanned ic seg @ [d])"
  using border_scan_segment[of "[d]" ic seg pre] assms by simp

lemma length_scanned [simp]: "length (scanned ic s) = length s"
  by (induction s) auto

lemma scanned_Nil_iff [simp]: "scanned ic s = [] \<longleftrightarrow> s = []"
  using length_scanned[of ic s] by (metis length_0_conv)

lemma last_scanned_corner: "last (scanned ic (s @ [c_bottom_right])) = c_bottom_right"
  by (induction s) (auto simp: last_append)

lemma border_single:
  assumes "length mid + 1 = W"
  shows "border ic (int W) (a # mid @ [z, c_newline])
           = Inr (c_elbow # scanned ic (mid @ [c_bottom_right]) @ [c_newline])"
proof -
  have s1: "set_item (a # mid @ [z, c_newline]) 0 c_top_left = Inr (c_top_left # mid @ [z, c_newline])"
    using set_item_pos[of "[]" 0 a "mid @ [z, c_newline]" c_top_left] by simp
  have s2: "set_item (c_top_left # mid @ [z, c_newline]) (int W) c_top_right
              = Inr (c_top_left # mid @ [c_top_right, c_newline])"
    using set_item_pos[of "c_top_left # mid" W z "[c_newline]" c_top_right] assms by simp
  have s3: "set_item (c_top_left # mid @ [c_top_right, c_newline]) (- 2) c_bottom_right
              = Inr (c_top_left # mid @ [c_bottom_right, c_newline])"
    using set_item_neg[of "- 2" "[]" "c_top_left # mid" c_top_right c_newline c_bottom_right] by simp
  have s4: "set_item (c_top_left # mid @ [c_bottom_right, c_newline]) (- int W - 2) c_elbow
              = Inr (c_elbow # mid @ [c_bottom_right, c_newline])"
  proof -
    have "- int W - 2 = - int (length (mid @ [c_bottom_right])) - 2" using assms by auto
    from set_item_neg[OF this, of "[]" c_top_left c_newline c_elbow] show ?thesis by simp
  qed
  have s5: "border_scan ic [- int W - 1 .. - 2] (c_elbow # mid @ [c_bottom_right, c_newline])
              = Inr (c_elbow # scanned ic (mid @ [c_bottom_right]) @ [c_newline])"
    using border_scan_last[of "mid @ [c_bottom_right]" W ic "[c_elbow]" c_newline] assms by simp
  show ?thesis unfolding border_def s1 s2 s3 s4 sum.case s5 ..
qed

lemma border_multi:
  assumes "length m1 + 1 = W" and "length ml + 1 = W"
  shows "border ic (int W) ((a # m1 @ [z1]) @ c_newline # M @ (b # ml @ [zl]) @ [c_newline])
           = Inr ((c_top_left # m1 @ [c_top_right]) @ c_newline # M
                    @ (c_elbow # scanned ic (ml @ [c_bottom_right])) @ [c_newline])"
proof -
  let ?R0 = "(a # m1 @ [z1]) @ c_newline # M @ (b # ml @ [zl]) @ [c_newline]"
  let ?R1 = "(c_top_left # m1 @ [z1]) @ c_newline # M @ (b # ml @ [zl]) @ [c_newline]"
  let ?R2 = "(c_top_left # m1 @ [c_top_right]) @ c_newline # M @ (b # ml @ [zl]) @ [c_newline]"
  let ?R3 = "(c_top_left # m1 @ [c_top_right]) @ c_newline # M @ (b # ml @ [c_bottom_right]) @ [c_newline]"
  let ?R4 = "(c_top_left # m1 @ [c_top_right]) @ c_newline # M @ (c_elbow # ml @ [c_bottom_right]) @ [c_newline]"
  let ?pre = "(c_top_left # m1 @ [c_top_right]) @ c_newline # M"
  have s1: "set_item ?R0 0 c_top_left = Inr ?R1"
    using set_item_pos[of "[]" 0 a _ c_top_left] by simp
  have s2: "set_item ?R1 (int W) c_top_right = Inr ?R2"
    using set_item_pos[of "c_top_left # m1" W z1 "c_newline # M @ (b # ml @ [zl]) @ [c_newline]" c_top_right]
      assms(1) by simp
  have s3: "set_item ?R2 (- 2) c_bottom_right = Inr ?R3"
    using set_item_neg[of "- 2" "[]" "?pre @ b # ml" zl c_newline c_bottom_right] by simp
  have s4: "set_item ?R3 (- int W - 2) c_elbow = Inr ?R4"
  proof -
    have "- int W - 2 = - int (length (ml @ [c_bottom_right])) - 2" using assms(2) by auto
    from set_item_neg[OF this, of ?pre b c_newline c_elbow] show ?thesis by simp
  qed
  have s5: "border_scan ic [- int W - 1 .. - 2] ?R4
              = Inr (?pre @ (c_elbow # scanned ic (ml @ [c_bottom_right])) @ [c_newline])"
    using border_scan_last[of "ml @ [c_bottom_right]" W ic "?pre @ [c_elbow]" c_newline] assms(2)
    by simp
  show ?thesis unfolding border_def s1 s2 s3 s4 sum.case s5 by simp
qed


text \<open>
  C4 (amended). The scan of the border pass runs from left to right over the characters
  at the indices \<open>-row_length-1, ..., -2\<close>, the \<open>row_length\<close> characters before the final line
  break. It replaces each of the three guide glyphs by the T-junction glyph and each blank
  by the horizontal fill, and it stops at the first character, other than those four, that
  equals the container icon or the leaf icon; what follows the stop is left as it is, and
  so is everything outside the scanned stretch. On a text whose final line is
  \<open>row_length + 1\<close> characters wide that stretch is the final line from its second character
  to its last, the last being the bottom-right corner that the pass has just written. So
  on a single such line the pass gives the line its bottom-left corner and scans the rest;
  on two or more lines, the first one also \<open>row_length + 1\<close> wide, the first line gets its
  two corners, the final line its bottom-left corner and the scan, and the lines between
  are left as they are.
\<close>

theorem border_scan_forward:
  "border_scan ic [- int (length seg) - 1 .. - 2] (pre @ seg @ [c])
     = Inr (pre @ scanned ic seg @ [c])
   \<and> (length mid + 1 = W \<longrightarrow>
        border ic (int W) (a # mid @ [z, c_newline])
          = Inr (c_elbow # scanned ic (mid @ [c_bottom_right]) @ [c_newline]))
   \<and> (length m1 + 1 = W \<and> length ml + 1 = W \<longrightarrow>
        border ic (int W) ((a # m1 @ [z1]) @ c_newline # M @ (b # ml @ [zl]) @ [c_newline])
          = Inr ((c_top_left # m1 @ [c_top_right]) @ c_newline # M
                   @ (c_elbow # scanned ic (ml @ [c_bottom_right])) @ [c_newline]))"
  using border_scan_segment [of "[c]" ic seg pre] border_single [of mid W ic a z]
    border_multi [of m1 W ml ic a z1 M b zl]
  by simp

theorem border_scan_forward_witness:
  "length ([c_dash, 127795, 107] @ replicate 56 c_dash) + 1 = 60
   \<and> length ([c_space, c_space, c_elbow, c_dash, 127810, 97, c_space, 98] @ replicate 51 c_dash) + 1 = 60
   \<and> border ([127795], [127810]) 60
        ((c_tee # ([c_dash, 127795, 107] @ replicate 56 c_dash) @ [c_right]) @ c_newline # []
           @ (c_bar # ([c_space, c_space, c_elbow, c_dash, 127810, 97, c_space, 98]
                         @ replicate 51 c_dash) @ [c_right]) @ [c_newline])
       = Inr ((c_top_left # ([c_dash, 127795, 107] @ replicate 56 c_dash) @ [c_top_right]) @ c_newline # []
                @ (c_elbow # ([c_dash, c_dash, c_up_tee, c_dash, 127810, 97, c_space, 98]
                                @ replicate 51 c_dash @ [c_bottom_right])) @ [c_newline])
   \<and> length ([c_space, c_space, c_elbow, c_dash, 127810, 97, c_space, 98] @ replicate 51 c_dash) + 1 = 60
   \<and> border ([127795], [127810]) 60
        (c_tee # ([c_space, c_space, c_elbow, c_dash, 127810, 97, c_space, 98] @ replicate 51 c_dash)
           @ [c_right, c_newline])
       = Inr (c_elbow # ([c_dash, c_dash, c_up_tee, c_dash, 127810, 97, c_space, 98]
                @ replicate 51 c_dash @ [c_bottom_right]) @ [c_newline])"
  using border_scan_forward [where ?m1.0 = "[c_dash, 127795, 107] @ replicate 56 c_dash" and W = 60
      and ml = "[c_space, c_space, c_elbow, c_dash, 127810, 97, c_space, 98] @ replicate 51 c_dash"
      and mid = "[c_space, c_space, c_elbow, c_dash, 127810, 97, c_space, 98] @ replicate 51 c_dash"
      and ic = "([127795], [127810])" and a = c_tee and ?z1.0 = c_right and M = "[]"
      and b = c_bar and zl = c_right and z = c_right]
  by simp

text \<open>
  On \<open>{"k": {"a b": null}}\<close> with the one-character icons of the tree theme the final line
  of the output has its guides, to the left of the leaf icon, replaced, and the blank of the
  label \<open>a b\<close>, to the right of the icon, left alone: the scan ran forward and stopped at
  the icon. The scan from the end backward replaces that blank and stops before the
  guides, which gives another line.
\<close>

theorem border_scan_tree_icons:
  "build RectangleNodeFactory ([127795], [127810])
     (JObject [(ascii ''k'', JObject [(ascii ''a b'', JScalar SNone)])]) None
     = Inr (RectangleCompositeNode None ([127795], [127810])
              [RectangleCompositeNode (Some (ascii ''k'')) ([127795], [127810])
                 [RectangleLeafNode (Some (ascii ''a b'')) SNone ([127795], [127810]) 60 (Some 1)] 1 60]
              0 60)
   \<and> display (RectangleCompositeNode None ([127795], [127810])
              [RectangleCompositeNode (Some (ascii ''k'')) ([127795], [127810])
                 [RectangleLeafNode (Some (ascii ''a b'')) SNone ([127795], [127810]) 60 (Some 1)] 1 60]
              0 60) [] True
     = Inr (Some ([c_top_left, c_dash, 127795, 107] @ replicate 56 c_dash @ [c_top_right, c_newline]
                  @ c_elbow # [c_dash, c_dash, c_up_tee, c_dash, 127810, 97, c_space, 98]
                  @ replicate 51 c_dash @ [c_bottom_right]))
   \<and> spec_backward_scan ([127795], [127810])
        ([c_space, c_space, c_elbow, c_dash, 127810, 97, c_space, 98]
           @ replicate 51 c_dash @ [c_bottom_right])
     = [c_space, c_space, c_elbow, c_dash, 127810, 97, c_dash, 98]
         @ replicate 51 c_dash @ [c_bottom_right]
   \<and> [c_dash, c_dash, c_up_tee, c_dash, 127810, 97, c_space, 98 :: pychar]
       \<noteq> [c_space, c_space, c_elbow, c_dash, 127810, 97, c_dash, 98]"
  by (simp add: eval_simps spec_backward_scan_def)


section \<open>Levels\<close>

lemma tree_children_cong:
  assumes "\<forall>c\<in>set cs. \<forall>p l. display (g c) p l = display c p l" and "(lv' = 0) = (lv = 0)"
  shows "tree_children (map g cs) i n lv' prefix is_last result
           = tree_children cs i n lv prefix is_last result"
  using assms by (induction cs arbitrary: i result) (auto split: sum.splits option.splits)

lemma rectangle_children_cong:
  assumes "\<forall>c\<in>set cs. \<forall>p l. display (g c) p l = display c p l" and "(lv' = 0) = (lv = 0)"
  shows "rectangle_children (map g cs) i n lv' prefix result
           = rectangle_children cs i n lv prefix result"
  using assms by (induction cs arbitrary: i result) (auto split: sum.splits option.splits)

lemma display_level_tests: "display (level_tests n) p l = display n p l"
proof (induction n arbitrary: p l)
  case (TreeCompositeNode k ic cs lv)
  then have "\<forall>c\<in>set cs. \<forall>p l. display (level_tests c) p l = display c p l" by blast
  then have "tree_children (map level_tests cs) i n (if lv = 0 then 0 else 1) q b result
          = tree_children cs i n lv q b result" for i n q b result
    by (intro tree_children_cong) auto
  then show ?case by (cases "lv = 0") (simp_all split: sum.splits)
next
  case (RectangleCompositeNode k ic cs lv w)
  then have "\<forall>c\<in>set cs. \<forall>p l. display (level_tests c) p l = display c p l" by blast
  then have "rectangle_children (map level_tests cs) i n (if lv = 0 then 0 else 1) q result
          = rectangle_children cs i n lv q result" for i n q result
    by (intro rectangle_children_cong) auto
  then show ?case by (cases "lv = 0") (simp_all split: sum.splits)
qed simp_all


text \<open>
  C10 (amended). In a tree built by \<open>build\<close> the root has level 0 when it is a composite,
  that is when the value is an object or an array; the lone leaf built from a scalar or
  null was never passed to \<open>add\<close> and has no level. Every node below the root has level 1,
  whatever its depth. \<open>display\<close> reads a level only in the test
  \<open>level == 0\<close>: it returns the same on the tree in which every level is replaced by the
  outcome of that test. So every composite below the root renders its header line: its
  text begins with that line (up to the white space that \<open>rstrip\<close> removes at the end of
  the text).
\<close>

theorem levels_flat:
  assumes "build f ic j key = Inr root"
  shows "level root = (if is_composite root then Some 0 else None)
       \<and> (\<forall>d \<in> set (descendants root). level d = Some 1)
       \<and> (\<forall>n p l. display (level_tests n) p l = display n p l)
       \<and> (\<forall>d \<in> set (descendants root). is_composite d \<longrightarrow>
            (\<forall>p l. \<exists>s. display d p l = Inr (Some s) \<and> startswith s (rstrip (header_line d p l))))"
proof (intro conjI ballI allI impI)
  show "level root = (if is_composite root then Some 0 else None)"
    using assms by (rule build_root_level)
next
  fix d assume "d \<in> set (descendants root)"
  with assms show "level d = Some 1" by (rule build_descendants_level)
next
  fix n p l show "display (level_tests n) p l = display n p l" by (rule display_level_tests)
next
  fix d p l assume d: "d \<in> set (descendants root)" and c: "is_composite d"
  have "\<forall>d\<in>set (descendants root). level d = Some 1"
    using assms build_descendants_level by blast
  then have "inner d" using d by (rule inner_descendant)
  moreover have "made_by f ic d"
    using build_made_by[OF assms] d by (rule made_by_descendants)
  ultimately show "\<exists>s. display d p l = Inr (Some s) \<and> startswith s (rstrip (header_line d p l))"
    using c by (intro composite_header_rendered)
qed

theorem levels_flat_witness:
  "build TreeNodeFactory ([c_space], [c_space])
     (JObject [(ascii ''a'', JObject [(ascii ''b'', JScalar (SInt 1))])]) None
     = Inr (TreeCompositeNode None ([c_space], [c_space])
              [TreeCompositeNode (Some (ascii ''a'')) ([c_space], [c_space])
                 [TreeLeafNode (Some (ascii ''b'')) (SInt 1) ([c_space], [c_space]) (Some 1)] 1] 0)
   \<and> level (TreeLeafNode (Some (ascii ''b'')) (SInt 1) ([c_space], [c_space]) (Some 1)) = Some 1"
proof -
  let ?b = "TreeLeafNode (Some (ascii ''b'')) (SInt 1) ([c_space], [c_space]) (Some 1)"
  let ?root = "TreeCompositeNode None ([c_space], [c_space])
                 [TreeCompositeNode (Some (ascii ''a'')) ([c_space], [c_space]) [?b] 1] 0"
  have b: "build TreeNodeFactory ([c_space], [c_space])
             (JObject [(ascii ''a'', JObject [(ascii ''b'', JScalar (SInt 1))])]) None = Inr ?root"
    by simp
  have "?b \<in> set (descendants ?root)" by simp
  with levels_flat [OF b] have "level ?b = Some 1" by blast
  with b show ?thesis by simp
qed

text \<open>
  The root built from a scalar or from null is a leaf without a level, in both families of
  classes.
\<close>

theorem scalar_root_no_level:
  "build TreeNodeFactory ([c_space], [c_space]) (JScalar SNone) None
     = Inr (TreeLeafNode None SNone ([c_space], [c_space]) None)
   \<and> level (TreeLeafNode None SNone ([c_space], [c_space]) None) = None
   \<and> build RectangleNodeFactory ([c_space], [c_space]) (JScalar (SStr (ascii ''x''))) None
     = Inr (RectangleLeafNode None (SStr (ascii ''x'')) ([c_space], [c_space]) 60 None)
   \<and> level (RectangleLeafNode None (SStr (ascii ''x'')) ([c_space], [c_space]) 60 None) = None"
  by simp

section \<open>Rendered lines\<close>

lemma lines_text_simps [simp]:
  "lines_text [] = []"
  "lines_text (r # rows) = r @ c_newline # lines_text rows"
  "lines_text (rows @ rows') = lines_text rows @ lines_text rows'"
  by (simp_all add: lines_text_def)

lemma butlast_lines_text:
  "rows \<noteq> [] \<Longrightarrow> butlast (lines_text rows) @ [c_newline] = lines_text rows"
  by (cases rows rule: rev_cases) (simp_all add: butlast_append)

lemma rstrip_lines:
  assumes "rows \<noteq> []" and "last rows \<noteq> []" and "\<not> isspace (last (last rows))"
  shows "rstrip (lines_text rows) = butlast (lines_text rows)"
proof -
  from assms(1) obtain R r where R: "rows = R @ [r]" by (cases rows rule: rev_cases) auto
  with assms(2) obtain r0 x where r: "r = r0 @ [x]" by (cases r rule: rev_cases) auto
  from assms(3) have x: "\<not> isspace x" by (simp add: R r)
  have "lines_text rows = (lines_text R @ r0) @ x # [c_newline]" by (simp add: R r)
  moreover have "rstrip [c_newline] = []" by (simp add: rstrip_def isspace_def)
  ultimately have "rstrip (lines_text rows) = (lines_text R @ r0) @ [x]"
    using rstrip_keep[OF x, of "lines_text R @ r0" "[c_newline]"] by simp
  moreover have "butlast (lines_text rows) = (lines_text R @ r0) @ [x]"
    by (simp add: R r butlast_append)
  ultimately show ?thesis by simp
qed

subsection \<open>Trailing white space\<close>

lemma rstrip_newline [simp]: "rstrip (s @ [c_newline]) = rstrip s"
  by (simp add: rstrip_def isspace_def)

lemma rstrip_is_prefix: "\<exists>z. s = rstrip s @ z"
  unfolding rstrip_def by (metis rev_append rev_rev_ident takeWhile_dropWhile_id)

lemma set_rstrip: "set (rstrip s) \<subseteq> set s"
  using rstrip_is_prefix[of s] by (metis Un_upper1 set_append)

lemma rstrip_append_keep:
  assumes "\<exists>x\<in>set r. \<not> isspace x"
  shows "rstrip (a @ r) = a @ rstrip r"
  using assms by (auto simp add: rstrip_def dropWhile_append)

lemma rstrip_rows:
  assumes "rows \<noteq> []" and "\<exists>x\<in>set (last rows). \<not> isspace x"
  shows "rstrip (lines_text rows) = butlast (lines_text (butlast rows @ [rstrip (last rows)]))"
proof -
  from assms(1) obtain R r where R: "rows = R @ [r]" by (cases rows rule: rev_cases) auto
  have "lines_text rows = (lines_text R @ r) @ [c_newline]" by (simp add: R)
  then have "rstrip (lines_text rows) = rstrip (lines_text R @ r)"
    by (simp only: rstrip_newline)
  also have "\<dots> = lines_text R @ rstrip r"
    using assms(2) by (intro rstrip_append_keep) (simp add: R)
  finally show ?thesis by (simp add: R butlast_append)
qed

lemma rstrip_after:
  assumes "q \<noteq> []" and "\<not> isspace (last q)"
  shows "rstrip (q @ t) = q @ rstrip t"
proof -
  from assms(1) have q: "q = butlast q @ [last q]" by simp
  have "rstrip (q @ t) = butlast q @ last q # rstrip t"
    by (subst q) (simp add: rstrip_keep[OF assms(2)])
  then show ?thesis
    using q by (metis append.assoc append_Cons append_Nil)
qed

lemma rstrip_head: "rstrip (x # t) = [] \<or> (\<exists>u. rstrip (x # t) = x # u)"
proof (cases "rstrip (x # t)")
  case Nil
  then show ?thesis by simp
next
  case (Cons y u)
  from rstrip_is_prefix[of "x # t"] obtain z where "x # t = rstrip (x # t) @ z" ..
  with Cons have "y = x" by simp
  with Cons show ?thesis by simp
qed

subsection \<open>Texts without line breaks\<close>

lemma row_text_no_break:
  "c_newline \<notin> set p \<Longrightarrow> c_newline \<notin> set (row_text n [] True) \<Longrightarrow> c_newline \<notin> set (row_text n p l)"
  by (cases n) (auto simp: node_prefix_def)

lemma no_breaks_own: "no_breaks n \<Longrightarrow> c_newline \<notin> set (row_text n [] True)"
  by (cases n) simp_all

lemma no_breaks_child: "no_breaks n \<Longrightarrow> c \<in> set (children n) \<Longrightarrow> no_breaks c"
  by (cases n) (auto simp: list_all_iff)

lemma child_prefix_no_break: "c_newline \<notin> set (child_prefix n l)"
  by (cases n) (simp_all add: ascii_def)

section \<open>Lines in the tree style\<close>

lemma line_at_rstrip:
  assumes "line_at row place"
  shows "line_at (rstrip row) place \<and> (\<exists>x\<in>set row. \<not> isspace x)"
proof -
  obtain q b where place: "place = (q, b)" by (cases place)
  let ?c = "q @ (if b then [c_elbow, c_dash] else [c_tee, c_dash])"
  from assms have sw: "startswith row ?c" and nl: "c_newline \<notin> set row"
    and other: "\<not> startswith row (q @ (if b then [c_tee, c_dash] else [c_elbow, c_dash]))"
    by (simp_all add: line_at_def place)
  from sw obtain t where row: "row = ?c @ t" by (auto simp: startswith_iff)
  have c: "?c \<noteq> []" "\<not> isspace (last ?c)" by simp_all
  have s1: "startswith (rstrip row) ?c" unfolding row using c by (rule rstrip_startswith)
  have s2: "\<not> startswith (rstrip row) (q @ (if b then [c_tee, c_dash] else [c_elbow, c_dash]))"
  proof
    assume "startswith (rstrip row) (q @ (if b then [c_tee, c_dash] else [c_elbow, c_dash]))"
    with s1 have "c_elbow = c_tee"
      by (cases b) (auto dest: startswith_same_head)
    then show False by simp
  qed
  have s3: "c_newline \<notin> set (rstrip row)" using nl set_rstrip[of row] by auto
  have "c_dash \<in> set row" unfolding row by auto
  then have "\<exists>x\<in>set row. \<not> isspace x" using isspace_glyphs(1) by blast
  with s1 s2 s3 show ?thesis by (simp add: line_at_def place)
qed

lemma rows_rstrip:
  assumes "list_all2 line_at rows ps"
  shows "\<exists>rows'. rstrip (lines_text rows) = butlast (lines_text rows') \<and> list_all2 line_at rows' ps"
proof (cases rows rule: rev_cases)
  case Nil
  with assms show ?thesis by (intro exI[of _ "[]"]) (simp add: rstrip_def)
next
  case (snoc R r)
  with assms obtain P x where ps: "ps = P @ [x]" "list_all2 line_at R P" "line_at r x"
    by (auto simp: list_all2_append1 list_all2_Cons1)
  from line_at_rstrip[OF ps(3)] have r: "line_at (rstrip r) x" "\<exists>x\<in>set r. \<not> isspace x" by simp_all
  have "rstrip (lines_text rows) = butlast (lines_text (butlast rows @ [rstrip (last rows)]))"
    using r(2) by (intro rstrip_rows) (simp_all add: snoc)
  moreover have "list_all2 line_at (butlast rows @ [rstrip (last rows)]) ps"
    using ps r(1) by (simp add: snoc list_all2_appendI)
  ultimately show ?thesis by blast
qed

lemma tree_children_rows:
  assumes "\<forall>c\<in>set cs. \<forall>l. \<exists>rows. display c q l = Inr (Some (butlast (lines_text rows)))
              \<and> rows \<noteq> [] \<and> list_all2 line_at rows (places c q l)"
    and "n = i + length cs"
  shows "\<exists>rows. concat (map (\<lambda>b. b @ [c_newline])
                    (map (\<lambda>(j, c). text_of (display c q (int j = int n - 1))) (enumerate i cs)))
                  = lines_text rows
           \<and> list_all2 line_at rows (places_list cs q)"
  using assms
proof (induction cs arbitrary: i)
  case Nil
  show ?case by (intro exI[of _ "[]"]) simp
next
  case (Cons c cs)
  have flag: "(int i = int n - 1) = (cs = [])" using Cons.prems(2) by auto
  from Cons.prems(1) obtain rc where rc:
    "display c q (cs = []) = Inr (Some (butlast (lines_text rc)))" "rc \<noteq> []"
    "list_all2 line_at rc (places c q (cs = []))"
    by (meson list.set_intros(1))
  from Cons.prems have "\<forall>c\<in>set cs. \<forall>l. \<exists>rows. display c q l = Inr (Some (butlast (lines_text rows)))
              \<and> rows \<noteq> [] \<and> list_all2 line_at rows (places c q l)" "n = Suc i + length cs"
    by simp_all
  from Cons.IH[OF this] obtain rs where rs:
    "concat (map (\<lambda>b. b @ [c_newline])
        (map (\<lambda>(j, c). text_of (display c q (int j = int n - 1))) (enumerate (Suc i) cs)))
       = lines_text rs"
    "list_all2 line_at rs (places_list cs q)"
    by blast
  have "text_of (display c q (int i = int n - 1)) @ [c_newline] = lines_text rc"
    unfolding flag using rc(2) by (simp add: rc(1) text_of_def butlast_lines_text)
  with rs rc(3) show ?case
    by (intro exI[of _ "rc @ rs"]) (simp add: list_all2_appendI)
qed

lemma line_at_row_text:
  assumes "c_newline \<notin> set p" and "no_breaks n" and "n = TreeLeafNode k v ic lv \<or> n = TreeCompositeNode k' ic' cs lv'"
  shows "line_at (row_text n p l) (p, l)"
proof -
  have nl: "c_newline \<notin> set (row_text n p l)"
    using assms(1) no_breaks_own[OF assms(2)] by (rule row_text_no_break)
  have sw: "startswith (row_text n p l) (p @ node_prefix l)"
    using assms(3) by (auto simp: startswith_iff)
  have "\<not> startswith (row_text n p l) (p @ node_prefix (\<not> l))"
  proof
    assume "startswith (row_text n p l) (p @ node_prefix (\<not> l))"
    with sw have "c_elbow = c_tee"
      by (cases l) (auto simp: node_prefix_def dest: startswith_same_head)
    then show False by simp
  qed
  with sw nl show ?thesis by (cases l) (simp_all add: line_at_def node_prefix_def del: row_text.simps)
qed

lemma tree_block_rows:
  assumes "made_by TreeNodeFactory ic n" and "inner n" and "no_breaks n" and "c_newline \<notin> set p"
  shows "\<exists>rows. display n p l = Inr (Some (butlast (lines_text rows)))
           \<and> rows \<noteq> [] \<and> list_all2 line_at rows (places n p l)"
  using assms
proof (induction n arbitrary: p l)
  case (TreeLeafNode k v ic' lv)
  let ?n = "TreeLeafNode k v ic' lv"
  have "line_at (row_text ?n p l) (p, l)"
    using TreeLeafNode.prems(4,3) by (rule line_at_row_text) simp
  then show ?case
    by (intro exI[of _ "[row_text ?n p l]"]) (simp add: butlast_append del: row_text.simps, simp)
next
  case (TreeCompositeNode k ic' cs lv)
  let ?n = "TreeCompositeNode k ic' cs lv"
  let ?q = "p @ child_prefix ?n l"
  from TreeCompositeNode.prems(2) have lv: "lv \<noteq> 0" by (simp add: inner_def)
  have qn: "c_newline \<notin> set ?q"
    using TreeCompositeNode.prems(4) child_prefix_no_break[of ?n l] by (simp del: child_prefix.simps)
  have kids: "\<forall>c\<in>set cs. \<forall>l. \<exists>rows. display c ?q l = Inr (Some (butlast (lines_text rows)))
              \<and> rows \<noteq> [] \<and> list_all2 line_at rows (places c ?q l)"
  proof (intro ballI allI)
    fix c l' assume c: "c \<in> set cs"
    with TreeCompositeNode.prems(1) have "made_by TreeNodeFactory ic c"
      by (auto simp: list_all_iff)
    moreover from inner_child[OF TreeCompositeNode.prems(2)] c have "inner c" by simp
    moreover from no_breaks_child[OF TreeCompositeNode.prems(3)] c have "no_breaks c" by simp
    ultimately show "\<exists>rows. display c ?q l' = Inr (Some (butlast (lines_text rows)))
              \<and> rows \<noteq> [] \<and> list_all2 line_at rows (places c ?q l')"
      using qn by (rule TreeCompositeNode.IH[OF c])
  qed
  from tree_children_rows[OF kids, of "length cs" 0] obtain rs where rs:
    "concat (map (\<lambda>b. b @ [c_newline])
        (map (\<lambda>(j, c). text_of (display c ?q (int j = int (length cs) - 1))) (enumerate 0 cs)))
       = lines_text rs"
    "list_all2 line_at rs (places_list cs ?q)"
    by auto
  let ?h = "row_text ?n p l"
  have h: "header ?n p l = ?h @ [c_newline]" using lv by (simp add: header_def)
  have hl: "line_at ?h (p, l)"
    using TreeCompositeNode.prems(4,3) by (rule line_at_row_text) simp
  have all: "list_all2 line_at (?h # rs) (places ?n p l)"
    using hl rs(2) lv by (simp del: row_text.simps child_prefix.simps)
  have e: "header ?n p l @ concat (map (\<lambda>b. b @ [c_newline])
               (map (\<lambda>(j, c). text_of (display c ?q (int j = int (length cs) - 1))) (enumerate 0 cs)))
             = lines_text (?h # rs)"
    unfolding h rs(1) by simp
  have d: "display ?n p l = Inr (Some (rstrip (lines_text (?h # rs))))"
    using tree_composite_display[OF TreeCompositeNode.prems(1), of p l]
    unfolding e .
  from rows_rstrip[OF all] obtain rows' where rows':
    "rstrip (lines_text (?h # rs)) = butlast (lines_text rows')"
    "list_all2 line_at rows' (places ?n p l)"
    by blast
  from rows'(2) lv have "rows' \<noteq> []" by auto
  with d rows' show ?case by auto
qed simp_all

lemma tree_root_rows:
  assumes b: "build TreeNodeFactory ic j key = Inr root"
    and nb: "no_breaks root" and pn: "c_newline \<notin> set p"
  shows "\<exists>rows. display root p l = Inr (Some (butlast (lines_text rows)))
           \<and> list_all2 line_at rows (places root p l)"
proof (cases "is_composite root")
  case False
  then have "inner root" by (cases root) (simp_all add: inner_def)
  from tree_block_rows[OF build_made_by[OF b] this nb pn, of l] show ?thesis by blast
next
  case True
  have mb: "made_by TreeNodeFactory ic root" using b by (rule build_made_by)
  from True build_root_level[OF b] have lv0: "level root = Some 0" by simp
  from mb True lv0 obtain k ic' cs where root: "root = TreeCompositeNode k ic' cs 0"
    by (cases root) auto
  have lev: "\<forall>d\<in>set (descendants root). level d = Some 1"
    using b build_descendants_level by blast
  have kids: "\<forall>c\<in>set cs. \<forall>l. \<exists>rows. display c p l = Inr (Some (butlast (lines_text rows)))
              \<and> rows \<noteq> [] \<and> list_all2 line_at rows (places c p l)"
  proof (intro ballI allI)
    fix c l' assume c: "c \<in> set cs"
    with mb have "made_by TreeNodeFactory ic c" by (auto simp: root list_all_iff)
    moreover have "inner c"
      using lev c by (intro inner_descendant[of root]) (auto simp: root)
    moreover from nb c have "no_breaks c" by (auto simp: root list_all_iff)
    ultimately show "\<exists>rows. display c p l' = Inr (Some (butlast (lines_text rows)))
              \<and> rows \<noteq> [] \<and> list_all2 line_at rows (places c p l')"
      using pn by (rule tree_block_rows)
  qed
  from tree_children_rows[OF kids, of "length cs" 0] obtain rs where rs:
    "concat (map (\<lambda>b. b @ [c_newline])
        (map (\<lambda>(j, c). text_of (display c p (int j = int (length cs) - 1))) (enumerate 0 cs)))
       = lines_text rs"
    "list_all2 line_at rs (places_list cs p)"
    by auto
  have d: "display root p l = Inr (Some (rstrip (lines_text rs)))"
    using tree_composite_display[OF mb[unfolded root], of p l] rs(1)
    by (simp add: root header_def)
  from rows_rstrip[OF rs(2)] obtain rows' where
    "rstrip (lines_text rs) = butlast (lines_text rows')" "list_all2 line_at rows' (places_list cs p)"
    by blast
  with d show ?thesis by (auto simp: root)
qed

lemma length_places_list:
  assumes "\<forall>c\<in>set cs. \<forall>l. length (places c q l) = Suc (length (descendants c))"
  shows "length (places_list cs q) = length (concat (map (\<lambda>c. c # descendants c) cs))"
  using assms by (induction cs) simp_all

lemma length_places:
  assumes "made_by TreeNodeFactory ic n" and "inner n"
  shows "length (places n p l) = Suc (length (descendants n))"
  using assms
proof (induction n arbitrary: p l)
  case (TreeCompositeNode k ic' cs lv)
  let ?n = "TreeCompositeNode k ic' cs lv"
  from TreeCompositeNode.prems(2) have lv: "lv \<noteq> 0" by (simp add: inner_def)
  have "\<forall>c\<in>set cs. \<forall>l'. length (places c (p @ child_prefix ?n l) l') = Suc (length (descendants c))"
  proof (intro ballI allI)
    fix c l' assume c: "c \<in> set cs"
    with TreeCompositeNode.prems(1) have "made_by TreeNodeFactory ic c" by (auto simp: list_all_iff)
    moreover from inner_child[OF TreeCompositeNode.prems(2)] c have "inner c" by simp
    ultimately show "length (places c (p @ child_prefix ?n l) l') = Suc (length (descendants c))"
      by (rule TreeCompositeNode.IH[OF c])
  qed
  from length_places_list[OF this] lv show ?case by (simp del: child_prefix.simps)
qed simp_all

lemma length_places_root:
  assumes b: "build TreeNodeFactory ic j key = Inr root"
  shows "length (places root p l) = (if is_composite root then length (descendants root) else 1)"
proof (cases "is_composite root")
  case False
  with build_made_by[OF b] show ?thesis by (cases root) simp_all
next
  case True
  have mb: "made_by TreeNodeFactory ic root" using b by (rule build_made_by)
  from True build_root_level[OF b] have lv0: "level root = Some 0" by simp
  from mb True lv0 obtain k ic' cs where root: "root = TreeCompositeNode k ic' cs 0"
    by (cases root) auto
  have lev: "\<forall>d\<in>set (descendants root). level d = Some 1"
    using b build_descendants_level by blast
  have "\<forall>c\<in>set cs. \<forall>l'. length (places c p l') = Suc (length (descendants c))"
  proof (intro ballI allI)
    fix c l' assume c: "c \<in> set cs"
    with mb have "made_by TreeNodeFactory ic c" by (auto simp: root list_all_iff)
    moreover have "inner c"
      using lev c by (intro inner_descendant[of root]) (auto simp: root)
    ultimately show "length (places c p l') = Suc (length (descendants c))"
      by (rule length_places)
  qed
  from length_places_list[OF this] show ?thesis by (simp add: root)
qed

text \<open>
  C7 (amended). In a tree built with the tree factory in which no key, value text or icon
  holds a line break, rendered with a prefix that holds none, the text is made of rows
  that hold no line break, separated by line breaks, one row for each place of the tree:
  one for every node below the root (and one for a lone leaf at the root), as many rows
  as there are such nodes. Each row begins
  with the prefix handed to its node followed by exactly one of the two connectors: the
  elbow connector when the node is the last of its siblings, the tee connector when a
  sibling follows it, and never the other one.
\<close>

theorem tree_connectors:
  assumes "build TreeNodeFactory ic j key = Inr root"
    and "no_breaks root" and "c_newline \<notin> set prefix"
  shows "\<exists>rows. display root prefix is_last = Inr (Some (butlast (lines_text rows)))
           \<and> length rows = (if is_composite root then length (descendants root) else 1)
           \<and> list_all2 (\<lambda>row (q, b).
                 startswith row (q @ (if b then [c_elbow, c_dash] else [c_tee, c_dash]))
                 \<and> \<not> startswith row (q @ (if b then [c_tee, c_dash] else [c_elbow, c_dash]))
                 \<and> c_newline \<notin> set row)
               rows (places root prefix is_last)"
proof -
  from tree_root_rows[OF assms, of is_last] obtain rows where
    rows: "display root prefix is_last = Inr (Some (butlast (lines_text rows)))"
          "list_all2 line_at rows (places root prefix is_last)"
    by blast
  have eq: "line_at = (\<lambda>row (q, b).
                 startswith row (q @ (if b then [c_elbow, c_dash] else [c_tee, c_dash]))
                 \<and> \<not> startswith row (q @ (if b then [c_tee, c_dash] else [c_elbow, c_dash]))
                 \<and> c_newline \<notin> set row)"
    by (intro ext) (simp add: line_at_def)
  from rows(2) have "length rows = length (places root prefix is_last)"
    by (rule list_all2_lengthD)
  then have "length rows = (if is_composite root then length (descendants root) else 1)"
    using length_places_root[OF assms(1)] by simp
  with rows show ?thesis unfolding eq by blast
qed

theorem tree_connectors_witness:
  "build TreeNodeFactory ([c_space], [c_space])
     (JObject [(ascii ''a'', JObject [(ascii ''b'', JScalar (SInt 1)), (ascii ''c'', JScalar SNone)]),
               (ascii ''d'', JScalar SNone)]) None
     = Inr (TreeCompositeNode None ([c_space], [c_space])
              [TreeCompositeNode (Some (ascii ''a'')) ([c_space], [c_space])
                 [TreeLeafNode (Some (ascii ''b'')) (SInt 1) ([c_space], [c_space]) (Some 1),
                  TreeLeafNode (Some (ascii ''c'')) SNone ([c_space], [c_space]) (Some 1)] 1,
               TreeLeafNode (Some (ascii ''d'')) SNone ([c_space], [c_space]) (Some 1)] 0)
   \<and> no_breaks (TreeCompositeNode None ([c_space], [c_space])
              [TreeCompositeNode (Some (ascii ''a'')) ([c_space], [c_space])
                 [TreeLeafNode (Some (ascii ''b'')) (SInt 1) ([c_space], [c_space]) (Some 1),
                  TreeLeafNode (Some (ascii ''c'')) SNone ([c_space], [c_space]) (Some 1)] 1,
               TreeLeafNode (Some (ascii ''d'')) SNone ([c_space], [c_space]) (Some 1)] 0)
   \<and> (\<exists>rows. display (TreeCompositeNode None ([c_space], [c_space])
              [TreeCompositeNode (Some (ascii ''a'')) ([c_space], [c_space])
                 [TreeLeafNode (Some (ascii ''b'')) (SInt 1) ([c_space], [c_space]) (Some 1),
                  TreeLeafNode (Some (ascii ''c'')) SNone ([c_space], [c_space]) (Some 1)] 1,
               TreeLeafNode (Some (ascii ''d'')) SNone ([c_space], [c_space]) (Some 1)] 0) [] True
            = Inr (Some (butlast (lines_text rows)))
          \<and> length rows = 4
          \<and> list_all2 (\<lambda>row (q, b).
                 startswith row (q @ (if b then [c_elbow, c_dash] else [c_tee, c_dash]))
                 \<and> \<not> startswith row (q @ (if b then [c_tee, c_dash] else [c_elbow, c_dash]))
                 \<and> c_newline \<notin> set row)
               rows [([], False), ([c_bar, c_space, c_space], False),
                     ([c_bar, c_space, c_space], True), ([], True)])
   \<and> display (TreeCompositeNode None ([c_space], [c_space])
              [TreeCompositeNode (Some (ascii ''a'')) ([c_space], [c_space])
                 [TreeLeafNode (Some (ascii ''b'')) (SInt 1) ([c_space], [c_space]) (Some 1),
                  TreeLeafNode (Some (ascii ''c'')) SNone ([c_space], [c_space]) (Some 1)] 1,
               TreeLeafNode (Some (ascii ''d'')) SNone ([c_space], [c_space]) (Some 1)] 0) [] True
       = Inr (Some ([c_tee, c_dash, c_space, 97, c_newline,
                     c_bar, c_space, c_space, c_tee, c_dash, c_space, 98, 58, c_space, 49, c_newline,
                     c_bar, c_space, c_space, c_elbow, c_dash, c_space, 99, c_newline,
                     c_elbow, c_dash, c_space, 100]))"
proof -
  let ?ic = "([c_space], [c_space])"
  let ?j = "JObject [(ascii ''a'', JObject [(ascii ''b'', JScalar (SInt 1)), (ascii ''c'', JScalar SNone)]),
                     (ascii ''d'', JScalar SNone)]"
  let ?root = "TreeCompositeNode None ?ic
              [TreeCompositeNode (Some (ascii ''a'')) ?ic
                 [TreeLeafNode (Some (ascii ''b'')) (SInt 1) ?ic (Some 1),
                  TreeLeafNode (Some (ascii ''c'')) SNone ?ic (Some 1)] 1,
               TreeLeafNode (Some (ascii ''d'')) SNone ?ic (Some 1)] 0"
  have b: "build TreeNodeFactory ?ic ?j None = Inr ?root" by simp
  have nb: "no_breaks ?root" by (simp add: eval_simps)
  have pl: "places ?root [] True = [([], False), ([c_bar, c_space, c_space], False),
                     ([c_bar, c_space, c_space], True), ([], True)]"
    by (simp add: eval_simps)
  have d: "display ?root [] True
       = Inr (Some ([c_tee, c_dash, c_space, 97, c_newline,
                     c_bar, c_space, c_space, c_tee, c_dash, c_space, 98, 58, c_space, 49, c_newline,
                     c_bar, c_space, c_space, c_elbow, c_dash, c_space, 99, c_newline,
                     c_elbow, c_dash, c_space, 100]))"
    by (simp add: eval_simps)
  have dl: "(if is_composite ?root then length (descendants ?root) else 1) = 4" by simp
  have "c_newline \<notin> set ([] :: pystr)" by simp
  from tree_connectors [OF b nb this, of True]
  have r: "\<exists>rows. display ?root [] True = Inr (Some (butlast (lines_text rows)))
          \<and> length rows = 4
          \<and> list_all2 (\<lambda>row (q, b).
                 startswith row (q @ (if b then [c_elbow, c_dash] else [c_tee, c_dash]))
                 \<and> \<not> startswith row (q @ (if b then [c_tee, c_dash] else [c_elbow, c_dash]))
                 \<and> c_newline \<notin> set row)
               rows [([], False), ([c_bar, c_space, c_space], False),
                     ([c_bar, c_space, c_space], True), ([], True)]"
    unfolding pl dl .
  show ?thesis by (rule conjI[OF b conjI[OF nb conjI[OF r d]]])
qed

text \<open>
  With a line break inside a value not every line begins with a connector: on the object
  whose one key \<open>k\<close> has for value the letters x and y with a line break between them,
  the text after the line break of the output is the letter y alone.
\<close>

theorem tree_line_without_connector:
  "build TreeNodeFactory ([c_space], [c_space])
     (JObject [(ascii ''k'', JScalar (SStr [120, c_newline, 121]))]) None
     = Inr (TreeCompositeNode None ([c_space], [c_space])
              [TreeLeafNode (Some (ascii ''k'')) (SStr [120, c_newline, 121]) ([c_space], [c_space])
                 (Some 1)] 0)
   \<and> display (TreeCompositeNode None ([c_space], [c_space])
              [TreeLeafNode (Some (ascii ''k'')) (SStr [120, c_newline, 121]) ([c_space], [c_space])
                 (Some 1)] 0) [] True
       = Inr (Some (lines_text [[c_elbow, c_dash, c_space, 107, 58, c_space, 120]] @ [121]))
   \<and> \<not> startswith [121] [c_elbow, c_dash]
   \<and> \<not> startswith [121] [c_tee, c_dash]"
  by (simp add: eval_simps startswith_def)

section \<open>Row width in the rectangle style\<close>

lemma scanned_no_break: "c_newline \<notin> set s \<Longrightarrow> c_newline \<notin> set (scanned ic s)"
  by (induction s) auto

lemma pad_row_no_break: "c_newline \<notin> set row \<Longrightarrow> c_newline \<notin> set (pad_row w row)"
  by (simp add: pad_row_def)

lemma pad_row_shape:
  assumes "int (length row) < w"
  shows "int (length (pad_row w row)) = w + 1"
    and "take (length row) (pad_row w row) = row"
    and "length row \<le> i \<Longrightarrow> int i < w \<Longrightarrow> pad_row w row ! i = c_dash"
    and "pad_row w row ! nat w = c_right"
proof -
  let ?k = "nat (w - int (length row) - 1)"
  have p: "pad_row w row = row @ replicate (Suc ?k) c_dash @ [c_right]"
    by (simp add: pad_row_def replicate_append_same)
  show "int (length (pad_row w row)) = w + 1" using assms by (simp add: p)
  show "take (length row) (pad_row w row) = row" by (simp add: p)
  show "pad_row w row ! i = c_dash" if "length row \<le> i" "int i < w"
  proof -
    from that assms have lt: "i - length row < Suc ?k" by auto
    have "pad_row w row ! i = (replicate (Suc ?k) c_dash @ [c_right]) ! (i - length row)"
      using that(1) by (simp add: p nth_append del: replicate_Suc)
    also have "\<dots> = replicate (Suc ?k) c_dash ! (i - length row)"
      using lt by (simp add: nth_append del: replicate_Suc)
    also have "\<dots> = c_dash" using lt by (simp del: replicate_Suc)
    finally show ?thesis .
  qed
  have "nat w = length row + Suc ?k" using assms by auto
  then show "pad_row w row ! nat w = c_right"
    by (simp add: p nth_append del: replicate_Suc)
qed

lemma row_split:
  assumes "length r = W + 1" and "1 \<le> W"
  shows "\<exists>a mid z. r = a # mid @ [z] \<and> length mid + 1 = W"
proof -
  from assms obtain a t where r: "r = a # t" by (cases r) auto
  with assms have "t \<noteq> []" by auto
  then obtain mid z where t: "t = mid @ [z]" by (cases t rule: rev_cases) auto
  with r assms show ?thesis by auto
qed

lemma border_lines:
  assumes "rows \<noteq> []" and "\<forall>r\<in>set rows. length r = W + 1" and "1 \<le> W"
  shows "\<exists>rows'. border ic (int W) (lines_text rows) = Inr (lines_text rows')
           \<and> length rows' = length rows \<and> (\<forall>r\<in>set rows'. length r = W + 1)
           \<and> last (last rows') = c_bottom_right
           \<and> ((\<forall>r\<in>set rows. last r = c_right \<and> c_newline \<notin> set r) \<longrightarrow>
                (\<forall>r\<in>set rows'. c_newline \<notin> set r
                    \<and> (last r = c_right \<or> last r = c_top_right \<or> last r = c_bottom_right)))"
proof (cases rows)
  case Nil
  with assms(1) show ?thesis by simp
next
  case (Cons r1 rest)
  with assms(2) have "length r1 = W + 1" by simp
  from row_split[OF this assms(3)] obtain a m1 z1 where
    r1: "r1 = a # m1 @ [z1]" "length m1 + 1 = W" by blast
  show ?thesis
  proof (cases rest rule: rev_cases)
    case Nil
    let ?r = "c_elbow # scanned ic (m1 @ [c_bottom_right])"
    have "border ic (int W) (lines_text rows) = Inr (lines_text [?r])"
      using border_single[OF r1(2), of ic a z1] by (simp add: Cons Nil r1)
    moreover have "length ?r = W + 1" using r1(2) by simp
    moreover have l: "last ?r = c_bottom_right" using last_scanned_corner[of ic m1] by simp
    moreover have "c_newline \<notin> set ?r" if "c_newline \<notin> set r1"
      using that scanned_no_break[of "m1 @ [c_bottom_right]" ic] by (simp add: r1)
    ultimately show ?thesis
      by (intro exI[of _ "[?r]"]) (simp add: Cons Nil)
  next
    case (snoc M rl)
    with assms(2) Cons have "length rl = W + 1" by simp
    from row_split[OF this assms(3)] obtain b ml zl where
      rl: "rl = b # ml @ [zl]" "length ml + 1 = W" by blast
    let ?f = "c_top_left # m1 @ [c_top_right]"
    let ?l = "c_elbow # scanned ic (ml @ [c_bottom_right])"
    have "border ic (int W) (lines_text rows) = Inr (lines_text (?f # M @ [?l]))"
      using border_multi[OF r1(2) rl(2), of ic a z1 "lines_text M" b zl]
      by (simp add: Cons snoc r1 rl)
    moreover have "length ?f = W + 1" "length ?l = W + 1" using r1(2) rl(2) by simp_all
    moreover have "\<forall>r\<in>set M. length r = W + 1" using assms(2) Cons snoc by simp
    moreover have ll: "last ?l = c_bottom_right" using last_scanned_corner[of ic ml] by simp
    moreover have "c_newline \<notin> set ?l" if "c_newline \<notin> set rl"
      using that scanned_no_break[of "ml @ [c_bottom_right]" ic] by (simp add: rl)
    moreover have "c_newline \<notin> set ?f" if "c_newline \<notin> set r1"
      using that by (simp add: r1)
    moreover have "last ?f = c_top_right" by simp
    ultimately show ?thesis
      by (intro exI[of _ "?f # M @ [?l]"]) (simp add: Cons snoc)
  qed
qed


lemma length_pad_row: "int (length row) < w \<Longrightarrow> int (length (pad_row w row)) = w + 1"
  by (simp add: pad_row_def)

lemma last_pad_row [simp]: "last (pad_row w row) = c_right"
  by (simp add: pad_row_def)

lemma length_row_text: "length (row_text n p l) = length (row_text n p True)"
  by (cases n) (simp_all add: node_prefix_def)

lemma children_rows:
  assumes "\<forall>c\<in>set cs. \<forall>l. \<exists>rows. display c q l = Inr (Some (butlast (lines_text rows)))
              \<and> length rows = Suc (length (descendants c)) \<and> good_rows rows"
  shows "\<exists>rows. concat (map (\<lambda>b. b @ [c_newline])
                    (map (\<lambda>(j, c). text_of (display c q (f j))) (enumerate i cs))) = lines_text rows
           \<and> length rows = length (concat (map (\<lambda>c. c # descendants c) cs)) \<and> good_rows rows"
  using assms
proof (induction cs arbitrary: i)
  case Nil
  show ?case by (intro exI[of _ "[]"]) (simp add: good_rows_def)
next
  case (Cons c cs)
  from Cons.prems obtain rc where rc: "display c q (f i) = Inr (Some (butlast (lines_text rc)))"
    "length rc = Suc (length (descendants c))" "good_rows rc"
    by (meson list.set_intros(1))
  from Cons.prems have "\<forall>c\<in>set cs. \<forall>l. \<exists>rows. display c q l = Inr (Some (butlast (lines_text rows)))
              \<and> length rows = Suc (length (descendants c)) \<and> good_rows rows" by simp
  from Cons.IH[OF this, of "Suc i"] obtain rs where rs:
    "concat (map (\<lambda>b. b @ [c_newline])
        (map (\<lambda>(j, c). text_of (display c q (f j))) (enumerate (Suc i) cs))) = lines_text rs"
    "length rs = length (concat (map (\<lambda>c. c # descendants c) cs))" "good_rows rs"
    by blast
  from rc(2) have "rc \<noteq> []" by auto
  then have "text_of (display c q (f i)) @ [c_newline] = lines_text rc"
    by (simp add: rc(1) text_of_def butlast_lines_text)
  with rs rc show ?case
    by (intro exI[of _ "rc @ rs"]) (auto simp: good_rows_def)
qed

lemma rectangle_block_rows:
  assumes "made_by RectangleNodeFactory ic n" and "inner n" and "fits n p"
    and "no_breaks n" and "c_newline \<notin> set p"
  shows "\<exists>rows. display n p l = Inr (Some (butlast (lines_text rows)))
           \<and> length rows = Suc (length (descendants n)) \<and> good_rows rows"
  using assms
proof (induction n arbitrary: p l)
  case (RectangleLeafNode k v ic' w lv)
  let ?n = "RectangleLeafNode k v ic' w lv"
  from RectangleLeafNode.prems(1) have w: "w = 60" by simp
  from RectangleLeafNode.prems(3) have len: "int (length (row_text ?n p l)) < 60"
    using length_row_text[of ?n p l] by (simp add: w del: row_text.simps)
  then have d: "display ?n p l = Inr (Some (pad_row 60 (row_text ?n p l)))"
    by (cases "v = SNone") (simp_all add: w Let_def)
  have hl: "length (pad_row 60 (row_text ?n p l)) = 61"
    using length_pad_row[OF len] by (simp del: row_text.simps)
  have nl: "c_newline \<notin> set (pad_row 60 (row_text ?n p l))"
    by (rule pad_row_no_break[OF row_text_no_break[OF RectangleLeafNode.prems(5)
          no_breaks_own[OF RectangleLeafNode.prems(4)]]])
  show ?case
  proof (intro exI[of _ "[pad_row 60 (row_text ?n p l)]"] conjI)
    show "display ?n p l = Inr (Some (butlast (lines_text [pad_row 60 (row_text ?n p l)])))"
      unfolding d by (simp add: butlast_append)
    show "length [pad_row 60 (row_text ?n p l)] = Suc (length (descendants ?n))" by simp
    show "good_rows [pad_row 60 (row_text ?n p l)]"
      using hl nl by (simp add: good_rows_def del: row_text.simps)
  qed
next
  case (RectangleCompositeNode k ic' cs lv w)
  let ?n = "RectangleCompositeNode k ic' cs lv w"
  let ?q = "p @ child_prefix ?n l"
  from RectangleCompositeNode.prems(1) have w: "w = 60" by simp
  from RectangleCompositeNode.prems(2) have lv: "lv \<noteq> 0" by (simp add: inner_def)
  from RectangleCompositeNode.prems(3) lv have len: "int (length (row_text ?n p l)) < 60"
    by (simp add: w)
  have q: "?q = p @ child_prefix ?n True" by simp
  have qn: "c_newline \<notin> set ?q"
    using RectangleCompositeNode.prems(5) child_prefix_no_break[of ?n l]
    by (simp del: child_prefix.simps)
  have kids: "\<forall>c\<in>set cs. \<forall>l. \<exists>rows. display c ?q l = Inr (Some (butlast (lines_text rows)))
              \<and> length rows = Suc (length (descendants c)) \<and> good_rows rows"
  proof (intro ballI allI)
    fix c l' assume c: "c \<in> set cs"
    with RectangleCompositeNode.prems(1) have "made_by RectangleNodeFactory ic c"
      by (auto simp: list_all_iff)
    moreover from inner_child[OF RectangleCompositeNode.prems(2)] c have "inner c" by simp
    moreover from RectangleCompositeNode.prems(3) c have "fits c ?q"
      unfolding q by (auto simp: list_all_iff)
    moreover from no_breaks_child[OF RectangleCompositeNode.prems(4)] c have "no_breaks c" by simp
    ultimately show "\<exists>rows. display c ?q l' = Inr (Some (butlast (lines_text rows)))
              \<and> length rows = Suc (length (descendants c)) \<and> good_rows rows"
      using qn by (rule RectangleCompositeNode.IH[OF c])
  qed
  from children_rows[OF kids, of "\<lambda>j. int j = int (length cs) - 1" 0] obtain rs where rs:
    "concat (map (\<lambda>b. b @ [c_newline])
        (map (\<lambda>(j, c). text_of (display c ?q (int j = int (length cs) - 1))) (enumerate 0 cs)))
       = lines_text rs"
    "length rs = length (concat (map (\<lambda>c. c # descendants c) cs))" "good_rows rs"
    by blast
  let ?h = "pad_row 60 (row_text ?n p l)"
  have h: "header ?n p l = ?h @ [c_newline]" using lv by (simp add: header_def w)
  have hl: "length ?h = 61" using length_pad_row[OF len] by (simp del: row_text.simps)
  have hn: "c_newline \<notin> set ?h"
    by (rule pad_row_no_break[OF row_text_no_break[OF RectangleCompositeNode.prems(5)
          no_breaks_own[OF RectangleCompositeNode.prems(4)]]])
  have good: "good_rows (?h # rs)"
    using rs(3) hl hn by (simp add: good_rows_def del: row_text.simps)
  have e: "header ?n p l @ concat (map (\<lambda>b. b @ [c_newline])
               (map (\<lambda>(j, c). text_of (display c ?q (int j = int (length cs) - 1))) (enumerate 0 cs)))
             = lines_text (?h # rs)"
    unfolding h rs(1) by simp
  have d: "display ?n p l = Inr (Some (rstrip (lines_text (?h # rs))))"
    using rectangle_composite_display[OF RectangleCompositeNode.prems(1,2), of p l]
    unfolding e .
  have "last (?h # rs) \<in> set (?h # rs)" by (rule last_in_set) simp
  with good have "length (last (?h # rs)) = 61" "last (last (?h # rs)) = c_right"
    unfolding good_rows_def by blast+
  then have "last (?h # rs) \<noteq> [] \<and> \<not> isspace (last (last (?h # rs)))"
    by auto
  then have "rstrip (lines_text (?h # rs)) = butlast (lines_text (?h # rs))"
    by (intro rstrip_lines) simp_all
  with d have "display ?n p l = Inr (Some (butlast (lines_text (?h # rs))))" by simp
  moreover have "length (?h # rs) = Suc (length (descendants ?n))" using rs(2) by simp
  ultimately show ?case using good by blast
qed simp_all


lemma rstrip_pad_row [simp]: "rstrip (pad_row w row) = pad_row w row"
proof -
  have "pad_row w row = (row @ replicate (nat (w - int (length row) - 1)) c_dash @ [c_dash]) @ c_right # []"
    by (simp add: pad_row_def)
  moreover have "rstrip ((row @ replicate (nat (w - int (length row) - 1)) c_dash @ [c_dash]) @ c_right # [])
      = (row @ replicate (nat (w - int (length row) - 1)) c_dash @ [c_dash]) @ c_right # rstrip []"
    by (rule rstrip_keep) simp
  ultimately show ?thesis by (simp add: rstrip_def)
qed

lemma rectangle_leaf_row:
  assumes "int (length (row_text (RectangleLeafNode k v ic w lv) p l)) < w"
  shows "display (RectangleLeafNode k v ic w lv) p l
           = Inr (Some (pad_row w (row_text (RectangleLeafNode k v ic w lv) p l)))"
  using assms by (cases "v = SNone") (simp_all add: Let_def)

lemma rectangle_root_rows:
  assumes b: "build RectangleNodeFactory ic j key = Inr root"
    and ne: "descendants root \<noteq> []" and f: "fits root p"
    and nb: "no_breaks root" and pn: "c_newline \<notin> set p"
  shows "\<exists>rows. display root p l = Inr (Some (butlast (lines_text rows)))
           \<and> length rows = length (descendants root)
           \<and> (\<forall>r\<in>set rows. length r = 61 \<and> c_newline \<notin> set r
                 \<and> (r ! 60 = c_right \<or> r ! 60 = c_top_right \<or> r ! 60 = c_bottom_right))"
proof -
  have mb: "made_by RectangleNodeFactory ic root" using b by (rule build_made_by)
  from ne have comp: "is_composite root" by (cases root) auto
  with build_root_level[OF b] have lv0: "level root = Some 0" by simp
  from mb comp lv0 obtain k ic' cs where root: "root = RectangleCompositeNode k ic' cs 0 60"
    by (cases root) auto
  have lev: "\<forall>d\<in>set (descendants root). level d = Some 1"
    using b build_descendants_level by blast
  have kids: "\<forall>c\<in>set cs. \<forall>l. \<exists>rows. display c p l = Inr (Some (butlast (lines_text rows)))
              \<and> length rows = Suc (length (descendants c)) \<and> good_rows rows"
  proof (intro ballI allI)
    fix c l' assume c: "c \<in> set cs"
    with mb have "made_by RectangleNodeFactory ic c" by (auto simp: root list_all_iff)
    moreover have "inner c"
      using lev c by (intro inner_descendant[of root]) (auto simp: root)
    moreover from f c have "fits c p" by (auto simp: root list_all_iff)
    moreover from nb c have "no_breaks c" by (auto simp: root list_all_iff)
    ultimately show "\<exists>rows. display c p l' = Inr (Some (butlast (lines_text rows)))
              \<and> length rows = Suc (length (descendants c)) \<and> good_rows rows"
      using pn by (rule rectangle_block_rows)
  qed
  from children_rows[OF kids, of "\<lambda>j. int j = int (length cs) - 1" 0] obtain rs where rs:
    "concat (map (\<lambda>b. b @ [c_newline])
        (map (\<lambda>(j, c). text_of (display c p (int j = int (length cs) - 1))) (enumerate 0 cs)))
       = lines_text rs"
    "length rs = length (concat (map (\<lambda>c. c # descendants c) cs))" "good_rows rs"
    by blast
  have len: "length rs = length (descendants root)" using rs(2) by (simp add: root)
  with ne have rs_ne: "rs \<noteq> []" by auto
  have total: "\<forall>c\<in>set cs. \<forall>p l. \<exists>r. display c p l = Inr r"
  proof (intro ballI allI)
    fix c q l' assume c: "c \<in> set cs"
    with mb have "made_by RectangleNodeFactory ic c" by (auto simp: root list_all_iff)
    moreover have "inner c"
      using lev c by (intro inner_descendant[of root]) (auto simp: root)
    ultimately show "\<exists>r. display c q l' = Inr r" by (rule rectangle_inner_total)
  qed
  have rc: "rectangle_children cs 0 (length cs) 0 p [] = Inr (lines_text rs)"
    unfolding rectangle_children_blocks[OF total] rs(1)[symmetric]
    by (simp add: comp_def case_prod_unfold)
  have w: "\<forall>r\<in>set rs. length r = 60 + 1" using rs(3) by (simp add: good_rows_def)
  have g: "\<forall>r\<in>set rs. last r = c_right \<and> c_newline \<notin> set r"
    using rs(3) by (simp add: good_rows_def)
  from border_lines[OF rs_ne w, of ic'] g obtain rows' where rows':
    "border ic' (int 60) (lines_text rs) = Inr (lines_text rows')"
    "length rows' = length rs" "\<forall>r\<in>set rows'. length r = 60 + 1"
    "last (last rows') = c_bottom_right"
    "\<forall>r\<in>set rows'. c_newline \<notin> set r
        \<and> (last r = c_right \<or> last r = c_top_right \<or> last r = c_bottom_right)"
    by auto
  from rows'(2) rs_ne have ne': "rows' \<noteq> []" by auto
  then have "last rows' \<in> set rows'" by simp
  with rows'(3) have "last rows' \<noteq> []" by fastforce
  with ne' rows'(4) have st: "rstrip (lines_text rows') = butlast (lines_text rows')"
    by (intro rstrip_lines) simp_all
  have d: "display root p l = Inr (Some (rstrip (lines_text rows')))"
    using rows'(1) by (simp add: root rc)
  have "length r = 61 \<and> c_newline \<notin> set r
          \<and> (r ! 60 = c_right \<or> r ! 60 = c_top_right \<or> r ! 60 = c_bottom_right)"
    if r: "r \<in> set rows'" for r
  proof -
    from r rows'(3) have l: "length r = 61" by simp
    then have "last r = r ! 60" by (cases r rule: rev_cases) (simp_all add: nth_append)
    with r rows'(5) l show ?thesis by auto
  qed
  with d st rows'(2) len show ?thesis by auto
qed

lemma rectangle_header_row:
  assumes mb: "made_by RectangleNodeFactory ic n" and inn: "inner n" and comp: "is_composite n"
    and len: "int (length (row_text n p l)) < 60"
  shows "\<exists>t. display n p l = Inr (Some (pad_row 60 (row_text n p l) @ t))
           \<and> (t = [] \<or> hd t = c_newline)"
proof -
  from mb comp obtain k ic' cs lv where n: "n = RectangleCompositeNode k ic' cs lv 60"
    by (cases n) auto
  from inn have lv: "lv \<noteq> 0" by (simp add: n inner_def)
  let ?h = "pad_row 60 (row_text n p l)"
  have h: "header n p l = ?h @ [c_newline]" using lv by (simp add: n header_def)
  from rectangle_composite_display[OF mb[unfolded n] inn[unfolded n], of p l]
  obtain rest where d: "display n p l = Inr (Some (rstrip (?h @ c_newline # rest)))"
    unfolding n[symmetric] h by auto
  have "?h \<noteq> []" "\<not> isspace (last ?h)" by (simp_all add: pad_row_def)
  then have k: "rstrip (?h @ c_newline # rest) = ?h @ rstrip (c_newline # rest)"
    by (rule rstrip_after)
  from rstrip_head[of c_newline rest]
  have "rstrip (c_newline # rest) = [] \<or> hd (rstrip (c_newline # rest)) = c_newline" by auto
  with d k show ?thesis by auto
qed

text \<open>
  C3 (amended). In rectangle style a line whose row text is shorter than the row length
  \<open>W\<close> is exactly \<open>W + 1\<close> characters wide: the row text, then the fill glyph up to column
  \<open>W - 1\<close>, then the right border at the 0-based column \<open>W\<close>. This holds for the line of a
  leaf, which is all of its text, and, with the factory's \<open>W = 60\<close>, for the header line of
  a composite below the root, with which its text begins and after which the text ends or
  a line break follows. In the rectangle output of a built tree with at least one node
  below the root, all of whose rows are shorter than \<open>W = 60\<close> and in which no key, value
  text or icon holds a line break, rendered with a prefix that holds none, the text is
  made of one row per node below the root, the rows separated by line breaks; every row
  holds no line break, is exactly 61 characters wide and has at column 60 the right border
  or one of the two right corners that the border pass writes.
\<close>

theorem rectangle_row_width:
  "(int (length (row_text (RectangleLeafNode k v ic w lv) prefix is_last)) < w \<longrightarrow>
      (\<exists>s. display (RectangleLeafNode k v ic w lv) prefix is_last = Inr (Some s)
         \<and> int (length s) = w + 1
         \<and> take (length (row_text (RectangleLeafNode k v ic w lv) prefix is_last)) s
             = row_text (RectangleLeafNode k v ic w lv) prefix is_last
         \<and> (\<forall>i. length (row_text (RectangleLeafNode k v ic w lv) prefix is_last) \<le> i \<and> int i < w
                 \<longrightarrow> s ! i = c_dash)
         \<and> s ! nat w = c_right))
   \<and> (made_by RectangleNodeFactory ic n \<and> inner n \<and> is_composite n
        \<and> int (length (row_text n prefix is_last)) < 60 \<longrightarrow>
      (\<exists>s. display n prefix is_last = Inr (Some s)
         \<and> take (length (row_text n prefix is_last)) s = row_text n prefix is_last
         \<and> (\<forall>i. length (row_text n prefix is_last) \<le> i \<and> i < 60 \<longrightarrow> s ! i = c_dash)
         \<and> s ! 60 = c_right
         \<and> (length s = 61 \<or> (61 < length s \<and> s ! 61 = c_newline))))
   \<and> (build RectangleNodeFactory ic j key = Inr root \<and> descendants root \<noteq> [] \<and> fits root prefix
        \<and> no_breaks root \<and> c_newline \<notin> set prefix \<longrightarrow>
      (\<exists>rows. display root prefix is_last = Inr (Some (butlast (lines_text rows)))
         \<and> length rows = length (descendants root)
         \<and> (\<forall>r\<in>set rows. length r = 61 \<and> c_newline \<notin> set r
               \<and> (r ! 60 = c_right \<or> r ! 60 = c_top_right \<or> r ! 60 = c_bottom_right))))"
proof (intro conjI impI)
  let ?leaf = "RectangleLeafNode k v ic w lv"
  let ?row = "row_text ?leaf prefix is_last"
  assume len: "int (length ?row) < w"
  have "display ?leaf prefix is_last = Inr (Some (pad_row w ?row))"
    using len by (rule rectangle_leaf_row)
  moreover have "\<forall>i. length ?row \<le> i \<and> int i < w \<longrightarrow> pad_row w ?row ! i = c_dash"
    using pad_row_shape(3)[OF len] by blast
  ultimately show "\<exists>s. display ?leaf prefix is_last = Inr (Some s)
         \<and> int (length s) = w + 1
         \<and> take (length ?row) s = ?row
         \<and> (\<forall>i. length ?row \<le> i \<and> int i < w \<longrightarrow> s ! i = c_dash)
         \<and> s ! nat w = c_right"
    using pad_row_shape(1,2,4)[OF len] by blast
next
  let ?row = "row_text n prefix is_last"
  assume a: "made_by RectangleNodeFactory ic n \<and> inner n \<and> is_composite n \<and> int (length ?row) < 60"
  then have len: "int (length ?row) < 60" by simp
  from a rectangle_header_row[of ic n prefix is_last] obtain t where
    t: "display n prefix is_last = Inr (Some (pad_row 60 ?row @ t))" "t = [] \<or> hd t = c_newline"
    by blast
  let ?h = "pad_row 60 ?row"
  have hl: "length ?h = 61" using length_pad_row[OF len] by simp
  have lr: "length ?row \<le> 61" using len by simp
  have 1: "take (length ?row) (?h @ t) = ?row"
    using pad_row_shape(2)[OF len] lr hl by simp
  have 2: "\<forall>i. length ?row \<le> i \<and> i < 60 \<longrightarrow> (?h @ t) ! i = c_dash"
    using pad_row_shape(3)[OF len] hl by (simp add: nth_append)
  have 3: "(?h @ t) ! 60 = c_right"
    using pad_row_shape(4)[OF len] hl by (simp add: nth_append)
  have 4: "length (?h @ t) = 61 \<or> (61 < length (?h @ t) \<and> (?h @ t) ! 61 = c_newline)"
    using t(2) hl by (cases t) (simp_all add: nth_append)
  from t(1) 1 2 3 4 show "\<exists>s. display n prefix is_last = Inr (Some s)
         \<and> take (length ?row) s = ?row
         \<and> (\<forall>i. length ?row \<le> i \<and> i < 60 \<longrightarrow> s ! i = c_dash)
         \<and> s ! 60 = c_right
         \<and> (length s = 61 \<or> (61 < length s \<and> s ! 61 = c_newline))"
    by blast
next
  assume "build RectangleNodeFactory ic j key = Inr root \<and> descendants root \<noteq> [] \<and> fits root prefix
        \<and> no_breaks root \<and> c_newline \<notin> set prefix"
  then show "\<exists>rows. display root prefix is_last = Inr (Some (butlast (lines_text rows)))
         \<and> length rows = length (descendants root)
         \<and> (\<forall>r\<in>set rows. length r = 61 \<and> c_newline \<notin> set r
               \<and> (r ! 60 = c_right \<or> r ! 60 = c_top_right \<or> r ! 60 = c_bottom_right))"
    using rectangle_root_rows by blast
qed

theorem rectangle_row_width_witness:
  "int (length (row_text (RectangleLeafNode (Some (ascii ''a'')) (SInt 1) ([c_space], [c_space]) 60 (Some 1))
          [] True)) < 60
   \<and> (\<exists>s. display (RectangleLeafNode (Some (ascii ''a'')) (SInt 1) ([c_space], [c_space]) 60 (Some 1))
              [] True = Inr (Some s)
          \<and> int (length s) = 60 + 1 \<and> s ! 7 = c_dash \<and> s ! nat 60 = c_right)
   \<and> int (length (row_text (RectangleCompositeNode (Some (ascii ''b'')) ([c_space], [c_space])
             [RectangleLeafNode (Some (replicate 60 120)) SNone ([c_space], [c_space]) 60 (Some 1)] 1 60)
          [] True)) < 60
   \<and> (\<exists>s. display (RectangleCompositeNode (Some (ascii ''b'')) ([c_space], [c_space])
             [RectangleLeafNode (Some (replicate 60 120)) SNone ([c_space], [c_space]) 60 (Some 1)] 1 60)
              [] True = Inr (Some s)
          \<and> s ! 4 = c_dash \<and> s ! 60 = c_right
          \<and> (length s = 61 \<or> (61 < length s \<and> s ! 61 = c_newline)))
   \<and> build RectangleNodeFactory ([c_space], [c_space])
        (JObject [(ascii ''a'', JScalar (SInt 1)), (ascii ''b'', JScalar SNone)]) None
       = Inr (RectangleCompositeNode None ([c_space], [c_space])
                [RectangleLeafNode (Some (ascii ''a'')) (SInt 1) ([c_space], [c_space]) 60 (Some 1),
                 RectangleLeafNode (Some (ascii ''b'')) SNone ([c_space], [c_space]) 60 (Some 1)] 0 60)
   \<and> fits (RectangleCompositeNode None ([c_space], [c_space])
                [RectangleLeafNode (Some (ascii ''a'')) (SInt 1) ([c_space], [c_space]) 60 (Some 1),
                 RectangleLeafNode (Some (ascii ''b'')) SNone ([c_space], [c_space]) 60 (Some 1)] 0 60) []
   \<and> no_breaks (RectangleCompositeNode None ([c_space], [c_space])
                [RectangleLeafNode (Some (ascii ''a'')) (SInt 1) ([c_space], [c_space]) 60 (Some 1),
                 RectangleLeafNode (Some (ascii ''b'')) SNone ([c_space], [c_space]) 60 (Some 1)] 0 60)
   \<and> (\<exists>rows. display (RectangleCompositeNode None ([c_space], [c_space])
                [RectangleLeafNode (Some (ascii ''a'')) (SInt 1) ([c_space], [c_space]) 60 (Some 1),
                 RectangleLeafNode (Some (ascii ''b'')) SNone ([c_space], [c_space]) 60 (Some 1)] 0 60)
              [] True = Inr (Some (butlast (lines_text rows)))
          \<and> length rows = 2
          \<and> (\<forall>r\<in>set rows. length r = 61 \<and> c_newline \<notin> set r
                \<and> (r ! 60 = c_right \<or> r ! 60 = c_top_right \<or> r ! 60 = c_bottom_right)))"
proof -
  let ?ic = "([c_space], [c_space])"
  let ?leaf = "RectangleLeafNode (Some (ascii ''a'')) (SInt 1) ?ic 60 (Some 1)"
  let ?n = "RectangleCompositeNode (Some (ascii ''b'')) ?ic
              [RectangleLeafNode (Some (replicate 60 120)) SNone ?ic 60 (Some 1)] 1 60"
  let ?j = "JObject [(ascii ''a'', JScalar (SInt 1)), (ascii ''b'', JScalar SNone)]"
  let ?root = "RectangleCompositeNode None ?ic
                 [?leaf, RectangleLeafNode (Some (ascii ''b'')) SNone ?ic 60 (Some 1)] 0 60"
  have l1: "length (row_text ?leaf [] True) = 7"
    by (simp add: ascii_def node_prefix_def str_int_def str_nat.simps)
  have h1: "int (length (row_text ?leaf [] True)) < 60" unfolding l1 by simp
  have l2: "length (row_text ?n [] True) = 4" by (simp add: ascii_def)
  have h2: "made_by RectangleNodeFactory ?ic ?n \<and> inner ?n \<and> is_composite ?n
              \<and> int (length (row_text ?n [] True)) < 60"
    unfolding l2 by (simp add: inner_def)
  have b: "build RectangleNodeFactory ?ic ?j None = Inr ?root" by simp
  have f: "fits ?root []" by (simp add: ascii_def node_prefix_def str_int_def str_nat.simps)
  have nb: "no_breaks ?root" by (simp add: ascii_def node_prefix_def str_int_def str_nat.simps)
  have h3: "build RectangleNodeFactory ?ic ?j None = Inr ?root \<and> descendants ?root \<noteq> []
              \<and> fits ?root [] \<and> no_breaks ?root \<and> c_newline \<notin> set []"
    using b f nb by simp
  note inst = rectangle_row_width [of "Some (ascii ''a'')" "SInt 1" ?ic 60 "Some 1" "[]" True ?n ?j None ?root]
  from inst h1 obtain s1 where s1: "display ?leaf [] True = Inr (Some s1)" "int (length s1) = 60 + 1"
      "\<forall>i. length (row_text ?leaf [] True) \<le> i \<and> int i < 60 \<longrightarrow> s1 ! i = c_dash"
      "s1 ! nat 60 = c_right"
    by blast
  from s1(3) have "s1 ! 7 = c_dash" unfolding l1 by simp
  with s1 have c1: "\<exists>s. display ?leaf [] True = Inr (Some s)
          \<and> int (length s) = 60 + 1 \<and> s ! 7 = c_dash \<and> s ! nat 60 = c_right"
    by blast
  from inst h2 obtain s2 where s2: "display ?n [] True = Inr (Some s2)"
      "\<forall>i. length (row_text ?n [] True) \<le> i \<and> i < 60 \<longrightarrow> s2 ! i = c_dash"
      "s2 ! 60 = c_right" "length s2 = 61 \<or> (61 < length s2 \<and> s2 ! 61 = c_newline)"
    by blast
  from s2(2) have "s2 ! 4 = c_dash" unfolding l2 by simp
  with s2 have c2: "\<exists>s. display ?n [] True = Inr (Some s)
          \<and> s ! 4 = c_dash \<and> s ! 60 = c_right
          \<and> (length s = 61 \<or> (61 < length s \<and> s ! 61 = c_newline))"
    by blast
  have dl: "length (descendants ?root) = 2" by simp
  from inst h3 have c3': "\<exists>rows. display ?root [] True = Inr (Some (butlast (lines_text rows)))
         \<and> length rows = 2
         \<and> (\<forall>r\<in>set rows. length r = 61 \<and> c_newline \<notin> set r
               \<and> (r ! 60 = c_right \<or> r ! 60 = c_top_right \<or> r ! 60 = c_bottom_right))"
    unfolding dl by blast
  note h2' = h2[THEN conjunct2, THEN conjunct2, THEN conjunct2]
  show ?thesis
    by (rule conjI[OF h1 conjI[OF c1 conjI[OF h2' conjI[OF c2 conjI[OF b conjI[OF f conjI[OF nb c3']]]]]]])
qed

text \<open>
  With the factory's row length 60 the line of the leaf \<open>a: 1\<close> is 61 characters wide,
  not 60.
\<close>

theorem rectangle_row_61:
  "display (RectangleLeafNode (Some (ascii ''a'')) (SInt 1) ([c_space], [c_space]) 60 (Some 1)) [] False
     = Inr (Some ([c_tee, c_dash, c_space, 97, 58, c_space, 49] @ replicate 53 c_dash @ [c_right]))
   \<and> length ([c_tee, c_dash, c_space, 97, 58, c_space, 49] @ replicate 53 c_dash @ [c_right]) = 61"
  by (simp add: eval_simps)

section \<open>Rendering on the store\<close>

lemma display_obj_frame:
  "display_obj fuel h self p l = Some (r, h') \<Longrightarrow> h' = h"
  "tree_loop fuel h self i p l res = Some (r1, h') \<Longrightarrow> h' = h"
  "rectangle_loop fuel h self i p res = Some (r1, h') \<Longrightarrow> h' = h"
proof (induction fuel arbitrary: h self p l r h' i res r1)
  case 0
  { case 1 then show ?case by simp }
  { case 2 then show ?case by simp }
  { case 3 then show ?case by simp }
next
  case (Suc fuel)
  { case 1
    then show ?case
      by (auto split: option.splits obj.splits sum.splits if_splits prod.splits
               dest: Suc.IH) }
  { case 2
    then show ?case
      by (auto split: option.splits obj.splits sum.splits if_splits prod.splits
               dest: Suc.IH) }
  { case 3
    then show ?case
      by (auto split: option.splits obj.splits sum.splits if_splits prod.splits
               dest: Suc.IH) }
qed


lemma held_range: "held lo hi h a n \<Longrightarrow> lo \<le> a \<and> a < hi"
  by (cases n) auto

lemma held_mono:
  "held lo hi h a n \<Longrightarrow> lo' \<le> lo \<Longrightarrow> hi \<le> hi' \<Longrightarrow> held lo' hi' h a n"
proof (induction n arbitrary: lo lo' a)
  case (TreeCompositeNode k ic cs lv)
  then show ?case
    by (auto split: option.splits obj.splits simp: list_all2_conv_all_nth)
next
  case (RectangleCompositeNode k ic cs lv w)
  then show ?case
    by (auto split: option.splits obj.splits simp: list_all2_conv_all_nth)
qed auto

lemma held_frame:
  "held lo hi h a n \<Longrightarrow> (\<forall>b. lo \<le> b \<and> b < hi \<longrightarrow> deref h' b = deref h b) \<Longrightarrow> held lo hi h' a n"
proof (induction n arbitrary: lo a)
  case (TreeCompositeNode k ic cs lv)
  then show ?case
    by (auto split: option.splits obj.splits simp: list_all2_conv_all_nth)
next
  case (RectangleCompositeNode k ic cs lv w)
  then show ?case
    by (auto split: option.splits obj.splits simp: list_all2_conv_all_nth)
qed auto


lemma renders_common:
  "list_all2 (\<lambda>r c. \<exists>F. renders F h r c) rs cs \<Longrightarrow> \<exists>F. list_all2 (renders F h) rs cs"
proof (induction rule: list_all2_induct)
  case Nil
  then show ?case by simp
next
  case (Cons r rs c cs)
  then obtain F1 F2 where F: "renders F1 h r c" "list_all2 (renders F2 h) rs cs" by blast
  have "renders (max F1 F2) h r c" using F(1) by (simp add: renders_def)
  moreover have "list_all2 (renders (max F1 F2) h) rs cs"
    using F(2) by (rule list_all2_mono) (simp add: renders_def)
  ultimately show ?case by auto
qed

lemma tree_loop_renders:
  assumes self: "deref h self = Some (TreeCompositeObj k ic rs lv)"
    and kids: "list_all2 (renders F h) rs cs"
  shows "i \<le> length rs \<Longrightarrow> F + (length rs - i) < fuel \<Longrightarrow>
         tree_loop fuel h self i p l res
           = Some (tree_children (drop i cs) i (length cs) lv p l res, h)"
proof (induction "length rs - i" arbitrary: i fuel res)
  case 0
  from kids have len: "length rs = length cs" by (rule list_all2_lengthD)
  from 0 obtain f where "fuel = Suc f" by (cases fuel) auto
  with 0 self len show ?case by simp
next
  case (Suc m)
  from kids have len: "length rs = length cs" by (rule list_all2_lengthD)
  from Suc obtain f where f: "fuel = Suc f" by (cases fuel) auto
  from Suc(2) have i: "i < length rs" by simp
  with len have d: "drop i cs = cs ! i # drop (Suc i) cs" by (simp add: Cons_nth_drop_Suc)
  from kids i have "renders F h (rs ! i) (cs ! i)" by (simp add: list_all2_conv_all_nth)
  moreover have "F \<le> f" using Suc(4) f by simp
  ultimately have call: "display_obj f h (rs ! i) q b = Some (display (cs ! i) q b, h)" for q b
    by (simp add: renders_def)
  have next_step: "tree_loop f h self (Suc i) p l res'
           = Some (tree_children (drop (Suc i) cs) (Suc i) (length cs) lv p l res', h)" for res'
    using Suc(1)[of "Suc i" f res'] Suc(2,3,4) f by simp
  show ?case
    unfolding f d using self i len
    by (cases "display (cs ! i)
                 (p @ (if lv = 0 then [] else if l then ascii ''   '' else c_bar # ascii ''  ''))
                 (int i = int (length cs) - 1)")
       (simp_all add: call next_step split: option.splits split del: if_split)
qed

lemma rectangle_loop_renders:
  assumes self: "deref h self = Some (RectangleCompositeObj k ic rs lv w)"
    and kids: "list_all2 (renders F h) rs cs"
  shows "i \<le> length rs \<Longrightarrow> F + (length rs - i) < fuel \<Longrightarrow>
         rectangle_loop fuel h self i p res
           = Some (rectangle_children (drop i cs) i (length cs) lv p res, h)"
proof (induction "length rs - i" arbitrary: i fuel res)
  case 0
  from kids have len: "length rs = length cs" by (rule list_all2_lengthD)
  from 0 obtain f where "fuel = Suc f" by (cases fuel) auto
  with 0 self len show ?case by simp
next
  case (Suc m)
  from kids have len: "length rs = length cs" by (rule list_all2_lengthD)
  from Suc obtain f where f: "fuel = Suc f" by (cases fuel) auto
  from Suc(2) have i: "i < length rs" by simp
  with len have d: "drop i cs = cs ! i # drop (Suc i) cs" by (simp add: Cons_nth_drop_Suc)
  from kids i have "renders F h (rs ! i) (cs ! i)" by (simp add: list_all2_conv_all_nth)
  moreover have "F \<le> f" using Suc(4) f by simp
  ultimately have call: "display_obj f h (rs ! i) q b = Some (display (cs ! i) q b, h)" for q b
    by (simp add: renders_def)
  have next_step: "rectangle_loop f h self (Suc i) p res'
           = Some (rectangle_children (drop (Suc i) cs) (Suc i) (length cs) lv p res', h)" for res'
    using Suc(1)[of "Suc i" f res'] Suc(2,3,4) f by simp
  show ?case
    unfolding f d using self i len
    by (cases "display (cs ! i) (p @ (if lv = 0 then [] else c_bar # ascii ''  ''))
                 (int i = int (length cs) - 1)")
       (simp_all add: call next_step split del: if_split)
qed

lemma held_renders: "held lo hi h a n \<Longrightarrow> \<exists>F. renders F h a n"
proof (induction n arbitrary: lo a)
  case (TreeLeafNode k v ic lv)
  then have d: "deref h a = Some (TreeLeafObj k v ic lv)" by simp
  have "renders 1 h a (TreeLeafNode k v ic lv)"
    unfolding renders_def
  proof (intro allI impI)
    fix fuel :: nat and p l assume "1 \<le> fuel"
    then obtain f where "fuel = Suc f" by (cases fuel) auto
    then show "display_obj fuel h a p l = Some (display (TreeLeafNode k v ic lv) p l, h)"
      using d by simp
  qed
  then show ?case ..
next
  case (RectangleLeafNode k v ic w lv)
  then have d: "deref h a = Some (RectangleLeafObj k v ic w lv)" by simp
  have "renders 1 h a (RectangleLeafNode k v ic w lv)"
    unfolding renders_def
  proof (intro allI impI)
    fix fuel :: nat and p l assume "1 \<le> fuel"
    then obtain f where "fuel = Suc f" by (cases fuel) auto
    then show "display_obj fuel h a p l = Some (display (RectangleLeafNode k v ic w lv) p l, h)"
      using d by simp
  qed
  then show ?case ..
next
  case (TreeCompositeNode k ic cs lv)
  from TreeCompositeNode.prems obtain rs where
    self: "deref h a = Some (TreeCompositeObj k ic rs lv)"
    and kids: "list_all2 (\<lambda>r c. held (Suc a) hi h r c) rs cs"
    by (auto split: option.splits obj.splits)
  have "list_all2 (\<lambda>r c. \<exists>F. renders F h r c) rs cs"
    using kids TreeCompositeNode.IH
    by (auto simp: list_all2_conv_all_nth)
  from renders_common[OF this] obtain F where F: "list_all2 (renders F h) rs cs" ..
  from F have len: "length rs = length cs" by (rule list_all2_lengthD)
  have "renders (F + length rs + 2) h a (TreeCompositeNode k ic cs lv)"
    unfolding renders_def
  proof (intro allI impI)
    fix fuel p l assume "F + length rs + 2 \<le> fuel"
    then obtain f where f: "fuel = Suc f" "F + (length rs - 0) < f" by (cases fuel) auto
    show "display_obj fuel h a p l = Some (display (TreeCompositeNode k ic cs lv) p l, h)"
      unfolding f(1) using self tree_loop_renders[OF self F _ f(2), of p l]
      by (simp add: len split: sum.splits)
  qed
  then show ?case ..
next
  case (RectangleCompositeNode k ic cs lv w)
  from RectangleCompositeNode.prems obtain rs where
    self: "deref h a = Some (RectangleCompositeObj k ic rs lv w)"
    and kids: "list_all2 (\<lambda>r c. held (Suc a) hi h r c) rs cs"
    by (auto split: option.splits obj.splits)
  have "list_all2 (\<lambda>r c. \<exists>F. renders F h r c) rs cs"
    using kids RectangleCompositeNode.IH
    by (auto simp: list_all2_conv_all_nth)
  from renders_common[OF this] obtain F where F: "list_all2 (renders F h) rs cs" ..
  from F have len: "length rs = length cs" by (rule list_all2_lengthD)
  have "renders (F + length rs + 2) h a (RectangleCompositeNode k ic cs lv w)"
    unfolding renders_def
  proof (intro allI impI)
    fix fuel p l assume "F + length rs + 2 \<le> fuel"
    then obtain f where f: "fuel = Suc f" "F + (length rs - 0) < f" by (cases fuel) auto
    show "display_obj fuel h a p l = Some (display (RectangleCompositeNode k ic cs lv w) p l, h)"
      unfolding f(1) using self rectangle_loop_renders[OF self F _ f(2), of p]
      by (simp add: len split: sum.splits)
  qed
  then show ?case ..
qed


lemma deref_update:
  "deref (h[a := x]) b = (if b = a \<and> a < length h then Some x else deref h b)"
  by (auto simp: deref_def)

lemma deref_take:
  "take m h1 = h \<Longrightarrow> b < length h \<Longrightarrow> deref h1 b = deref h b"
  by (auto simp: deref_def)

lemma held_set_level:
  assumes "held lo hi h a n"
  shows "held lo hi (h[a := set_level_obj (h ! a) l]) a (set_level n l)"
proof -
  let ?h = "h[a := set_level_obj (h ! a) l]"
  from held_range[OF assms] have r: "lo \<le> a" "a < hi" by auto
  have fr: "\<forall>b. Suc a \<le> b \<and> b < hi \<longrightarrow> deref ?h b = deref h b"
    by (simp add: deref_update)
  show ?thesis
  proof (cases n)
    case (TreeLeafNode k v ic lv)
    with assms show ?thesis by (auto simp: deref_def split: if_splits)
  next
    case (RectangleLeafNode k v ic w lv)
    with assms show ?thesis by (auto simp: deref_def split: if_splits)
  next
    case (TreeCompositeNode k ic cs lv)
    with assms obtain rs where
      self: "deref h a = Some (TreeCompositeObj k ic rs lv)"
      and kids: "list_all2 (\<lambda>r c. held (Suc a) hi h r c) rs cs"
      by (auto split: option.splits obj.splits)
    have "list_all2 (\<lambda>r c. held (Suc a) hi ?h r c) rs cs"
      using kids by (rule list_all2_mono) (rule held_frame[OF _ fr])
    moreover from self have "deref ?h a = Some (TreeCompositeObj k ic rs l)"
      by (auto simp: deref_def split: if_splits)
    ultimately show ?thesis using r by (simp add: TreeCompositeNode)
  next
    case (RectangleCompositeNode k ic cs lv w)
    with assms obtain rs where
      self: "deref h a = Some (RectangleCompositeObj k ic rs lv w)"
      and kids: "list_all2 (\<lambda>r c. held (Suc a) hi h r c) rs cs"
      by (auto split: option.splits obj.splits)
    have "list_all2 (\<lambda>r c. held (Suc a) hi ?h r c) rs cs"
      using kids by (rule list_all2_mono) (rule held_frame[OF _ fr])
    moreover from self have "deref ?h a = Some (RectangleCompositeObj k ic rs l w)"
      by (auto simp: deref_def split: if_splits)
    ultimately show ?thesis using r by (simp add: RectangleCompositeNode)
  qed
qed


lemma add_obj_held:
  assumes nd: "held a0 (length h) h a0 nd" "is_composite nd"
    and ext: "length h < length h1" "take (length h) h1 = h"
    and ch: "held (length h) (length h1) h1 (length h) ch"
    and add: "add nd ch = Inr nd'"
  shows "\<exists>h2. add_obj h1 a0 (length h) = Some (Inr (), h2) \<and> length h2 = length h1
           \<and> take a0 h2 = take a0 h \<and> held a0 (length h2) h2 a0 nd'"
proof -
  let ?c = "length h"
  from held_range[OF nd(1)] have a0: "a0 < length h" by simp
  have old: "deref h1 b = deref h b" if "b < length h" for b
    using deref_take[OF ext(2) that] .
  have c1: "deref h1 ?c = Some (h1 ! ?c)" using ext(1) by (simp add: deref_def)
  have tk: "take a0 h1 = take a0 h"
    using ext(2) a0 by (metis less_imp_le_nat min.absorb1 take_take)
  obtain lv where lv: "level nd = Some lv" using nd(2) by (cases nd) auto
  let ?h1' = "h1[?c := set_level_obj (h1 ! ?c) (lv + 1)]"
  have ch': "held (length h) (length h1) ?h1' ?c (set_level ch (lv + 1))"
    using ch by (rule held_set_level)
  from nd(2) show ?thesis
  proof (cases nd)
    case (TreeCompositeNode k ic cs lv')
    with lv have [simp]: "lv' = lv" by simp
    from nd(1) TreeCompositeNode obtain rs where
      self: "deref h a0 = Some (TreeCompositeObj k ic rs lv)"
      and kids: "list_all2 (\<lambda>r c. held (Suc a0) (length h) h r c) rs cs"
      by (auto split: option.splits obj.splits)
    let ?h2 = "?h1'[a0 := TreeCompositeObj k ic (rs @ [?c]) lv]"
    have self1: "deref h1 a0 = Some (TreeCompositeObj k ic rs lv)" using old[OF a0] self by simp
    have self1': "deref ?h1' a0 = Some (TreeCompositeObj k ic rs lv)"
      using self1 a0 by (simp add: deref_update)
    have run: "add_obj h1 a0 ?c = Some (Inr (), ?h2)"
      by (simp add: add_obj_def self1 c1 self1' Let_def)
    have nd': "nd' = TreeCompositeNode k ic (cs @ [set_level ch (lv + 1)]) lv"
      using add TreeCompositeNode by simp
    have fr_old: "\<forall>b. Suc a0 \<le> b \<and> b < length h \<longrightarrow> deref ?h2 b = deref h b"
      using old by (auto simp: deref_update)
    have fr_new: "\<forall>b. length h \<le> b \<and> b < length h1 \<longrightarrow> deref ?h2 b = deref ?h1' b"
      using a0 by (auto simp: deref_update)
    have k_old: "list_all2 (\<lambda>r c. held (Suc a0) (length ?h2) ?h2 r c) rs cs"
      using kids
    proof (rule list_all2_mono)
      fix r c assume "held (Suc a0) (length h) h r c"
      then have "held (Suc a0) (length h) ?h2 r c" by (rule held_frame[OF _ fr_old])
      then show "held (Suc a0) (length ?h2) ?h2 r c"
        by (rule held_mono) (use ext(1) in simp_all)
    qed
    have k_new: "held (Suc a0) (length ?h2) ?h2 ?c (set_level ch (lv + 1))"
    proof -
      have "held (length h) (length h1) ?h2 ?c (set_level ch (lv + 1))"
        using ch' by (rule held_frame[OF _ fr_new])
      then show ?thesis by (rule held_mono) (use a0 in simp_all)
    qed
    have "deref ?h2 a0 = Some (TreeCompositeObj k ic (rs @ [?c]) lv)"
      using a0 ext(1) by (simp add: deref_update)
    with k_old k_new a0 ext(1) have "held a0 (length ?h2) ?h2 a0 nd'"
      by (simp add: nd' list_all2_appendI)
    moreover have "take a0 ?h2 = take a0 h" using tk a0 by simp
    ultimately show ?thesis using run by simp
  next
    case (RectangleCompositeNode k ic cs lv' w)
    with lv have [simp]: "lv' = lv" by simp
    from nd(1) RectangleCompositeNode obtain rs where
      self: "deref h a0 = Some (RectangleCompositeObj k ic rs lv w)"
      and kids: "list_all2 (\<lambda>r c. held (Suc a0) (length h) h r c) rs cs"
      by (auto split: option.splits obj.splits)
    let ?h2 = "?h1'[a0 := RectangleCompositeObj k ic (rs @ [?c]) lv w]"
    have self1: "deref h1 a0 = Some (RectangleCompositeObj k ic rs lv w)" using old[OF a0] self by simp
    have self1': "deref ?h1' a0 = Some (RectangleCompositeObj k ic rs lv w)"
      using self1 a0 by (simp add: deref_update)
    have run: "add_obj h1 a0 ?c = Some (Inr (), ?h2)"
      by (simp add: add_obj_def self1 c1 self1' Let_def)
    have nd': "nd' = RectangleCompositeNode k ic (cs @ [set_level ch (lv + 1)]) lv w"
      using add RectangleCompositeNode by simp
    have fr_old: "\<forall>b. Suc a0 \<le> b \<and> b < length h \<longrightarrow> deref ?h2 b = deref h b"
      using old by (auto simp: deref_update)
    have fr_new: "\<forall>b. length h \<le> b \<and> b < length h1 \<longrightarrow> deref ?h2 b = deref ?h1' b"
      using a0 by (auto simp: deref_update)
    have k_old: "list_all2 (\<lambda>r c. held (Suc a0) (length ?h2) ?h2 r c) rs cs"
      using kids
    proof (rule list_all2_mono)
      fix r c assume "held (Suc a0) (length h) h r c"
      then have "held (Suc a0) (length h) ?h2 r c" by (rule held_frame[OF _ fr_old])
      then show "held (Suc a0) (length ?h2) ?h2 r c"
        by (rule held_mono) (use ext(1) in simp_all)
    qed
    have k_new: "held (Suc a0) (length ?h2) ?h2 ?c (set_level ch (lv + 1))"
    proof -
      have "held (length h) (length h1) ?h2 ?c (set_level ch (lv + 1))"
        using ch' by (rule held_frame[OF _ fr_new])
      then show ?thesis by (rule held_mono) (use a0 in simp_all)
    qed
    have "deref ?h2 a0 = Some (RectangleCompositeObj k ic (rs @ [?c]) lv w)"
      using a0 ext(1) by (simp add: deref_update)
    with k_old k_new a0 ext(1) have "held a0 (length ?h2) ?h2 a0 nd'"
      by (simp add: nd' list_all2_appendI)
    moreover have "take a0 ?h2 = take a0 h" using tk a0 by simp
    ultimately show ?thesis using run by simp
  qed simp_all
qed


lemma held_create_composite:
  "create_composite_obj f key ic h = (length h, h @ [ob]) \<Longrightarrow>
   held (length h) (Suc (length h)) (h @ [ob]) (length h) (create_composite_node f key ic)"
  by (cases f) (auto simp: alloc_def deref_def)

lemma create_composite_obj_alloc: "\<exists>ob. create_composite_obj f key ic h = (length h, h @ [ob])"
  by (cases f) (auto simp: alloc_def)

lemma is_composite_create [simp]: "is_composite (create_composite_node f key ic)"
  by (cases f) simp_all

lemma build_obj_held:
  "build f ic j key = Inr n \<Longrightarrow>
     \<exists>h'. build_obj f ic j key h = Some (Inr (length h), h') \<and> length h < length h'
        \<and> take (length h) h' = h \<and> held (length h) (length h') h' (length h) n"
  "is_composite nd \<Longrightarrow> held a0 (length h) h a0 nd \<Longrightarrow> build_items f ic kvs nd = Inr n \<Longrightarrow>
     \<exists>h'. build_items_obj f ic kvs a0 h = Some (Inr a0, h') \<and> length h \<le> length h'
        \<and> take a0 h' = take a0 h \<and> held a0 (length h') h' a0 n"
  "is_composite nd \<Longrightarrow> held a0 (length h) h a0 nd \<Longrightarrow> build_elems f ic key i vs nd = Inr n \<Longrightarrow>
     \<exists>h'. build_elems_obj f ic key i vs a0 h = Some (Inr a0, h') \<and> length h \<le> length h'
        \<and> take a0 h' = take a0 h \<and> held a0 (length h') h' a0 n"
proof (induction f ic j key and f ic kvs nd and f ic key i vs nd
       arbitrary: h n and h n a0 and h n a0
       rule: build_build_items_build_elems.induct)
  case (1 f ic kvs key)
  obtain ob where ob: "create_composite_obj f key ic h = (length h, h @ [ob])"
    using create_composite_obj_alloc by blast
  have hd: "held (length h) (length (h @ [ob])) (h @ [ob]) (length h) (create_composite_node f key ic)"
    using held_create_composite[OF ob] by simp
  from "1.prems" have b: "build_items f ic kvs (create_composite_node f key ic) = Inr n" by simp
  from "1.IH"[OF is_composite_create hd b] obtain h' where
    "build_items_obj f ic kvs (length h) (h @ [ob]) = Some (Inr (length h), h')"
    "length (h @ [ob]) \<le> length h'" "take (length h) h' = take (length h) (h @ [ob])"
    "held (length h) (length h') h' (length h) n"
    by blast
  then show ?case by (auto simp: ob)
next
  case (2 f ic vs key)
  obtain ob where ob: "create_composite_obj f key ic h = (length h, h @ [ob])"
    using create_composite_obj_alloc by blast
  have hd: "held (length h) (length (h @ [ob])) (h @ [ob]) (length h) (create_composite_node f key ic)"
    using held_create_composite[OF ob] by simp
  from "2.prems" have b: "build_elems f ic key 0 vs (create_composite_node f key ic) = Inr n" by simp
  from "2.IH"[OF is_composite_create hd b] obtain h' where
    "build_elems_obj f ic key 0 vs (length h) (h @ [ob]) = Some (Inr (length h), h')"
    "length (h @ [ob]) \<le> length h'" "take (length h) h' = take (length h) (h @ [ob])"
    "held (length h) (length h') h' (length h) n"
    by blast
  then show ?case by (auto simp: ob)
next
  case (3 f ic v key)
  then show ?case by (cases f) (auto simp: alloc_def deref_def)
next
  case (4 f ic node)
  then show ?case by auto
next
  case (5 f ic k v kvs node)
  obtain ch where ch: "build f ic v (Some k) = Inr ch" using build_Inr by blast
  from add_composite[OF "5.prems"(1), of ch] obtain nd' where
    nd': "add node ch = Inr nd'" "is_composite nd'" by blast
  from "5.prems"(3) ch nd' have rest: "build_items f ic kvs nd' = Inr n" by simp
  from "5.IH"(1)[OF ch, of h] obtain h1 where h1:
    "build_obj f ic v (Some k) h = Some (Inr (length h), h1)" "length h < length h1"
    "take (length h) h1 = h" "held (length h) (length h1) h1 (length h) ch"
    by blast
  from add_obj_held[OF "5.prems"(2,1) h1(2,3,4) nd'(1)] obtain h2 where h2:
    "add_obj h1 a0 (length h) = Some (Inr (), h2)" "length h2 = length h1"
    "take a0 h2 = take a0 h" "held a0 (length h2) h2 a0 nd'"
    by blast
  from "5.IH"(2)[OF ch nd'(1) nd'(2) h2(4) rest] obtain h' where h':
    "build_items_obj f ic kvs a0 h2 = Some (Inr a0, h')" "length h2 \<le> length h'"
    "take a0 h' = take a0 h2" "held a0 (length h') h' a0 n"
    by blast
  show ?case using h1 h2 h' by (intro exI[of _ h']) simp
next
  case (6 f ic key i node)
  then show ?case by auto
next
  case (7 f ic key i v vs node)
  let ?k = "Some (str_key key @ ascii ''['' @ str_nat i @ ascii '']'')"
  obtain ch where ch: "build f ic v ?k = Inr ch" using build_Inr by blast
  from add_composite[OF "7.prems"(1), of ch] obtain nd' where
    nd': "add node ch = Inr nd'" "is_composite nd'" by blast
  from "7.prems"(3) ch nd' have rest: "build_elems f ic key (i + 1) vs nd' = Inr n" by simp
  from "7.IH"(1)[OF ch, of h] obtain h1 where h1:
    "build_obj f ic v ?k h = Some (Inr (length h), h1)" "length h < length h1"
    "take (length h) h1 = h" "held (length h) (length h1) h1 (length h) ch"
    by blast
  from add_obj_held[OF "7.prems"(2,1) h1(2,3,4) nd'(1)] obtain h2 where h2:
    "add_obj h1 a0 (length h) = Some (Inr (), h2)" "length h2 = length h1"
    "take a0 h2 = take a0 h" "held a0 (length h2) h2 a0 nd'"
    by blast
  from "7.IH"(2)[OF ch nd'(1) nd'(2) h2(4) rest] obtain h' where h':
    "build_elems_obj f ic key (i + 1) vs a0 h2 = Some (Inr a0, h')" "length h2 \<le> length h'"
    "take a0 h' = take a0 h2" "held a0 (length h') h' a0 n"
    by blast
  show ?case using h1 h2 h' by (intro exI[of _ h']) simp
qed


lemma display_obj_mono:
  "display_obj fuel h a p l = Some x \<Longrightarrow> display_obj (Suc fuel) h a p l = Some x"
  "tree_loop fuel h a i p l res = Some y \<Longrightarrow> tree_loop (Suc fuel) h a i p l res = Some y"
  "rectangle_loop fuel h a i p res = Some y \<Longrightarrow> rectangle_loop (Suc fuel) h a i p res = Some y"
proof (induction fuel arbitrary: h a p l x i res y)
  case 0
  { case 1 then show ?case by simp }
  { case 2 then show ?case by simp }
  { case 3 then show ?case by simp }
next
  case (Suc fuel)
  { case 1
    note hyp = "1"[unfolded display_obj.simps(2)]
    show ?case
    proof (cases "deref h a")
      case None
      with hyp show ?thesis by simp
    next
      case (Some ob)
      show ?thesis
      proof (cases ob)
        case (TreeLeafObj k v ic lv)
        with hyp Some show ?thesis
          by (simp add: display_obj.simps(2)[of "Suc fuel"] del: display_obj.simps tree_loop.simps rectangle_loop.simps)
      next
        case (RectangleLeafObj k v ic w lv)
        with hyp Some show ?thesis
          by (simp add: display_obj.simps(2)[of "Suc fuel"] del: display_obj.simps tree_loop.simps rectangle_loop.simps)
      next
        case (TreeCompositeObj k ic cs lv)
        let ?r0 = "if lv = 0 then [] else p @ node_prefix l @ fst ic @ str_key k @ [c_newline]"
        from hyp Some TreeCompositeObj obtain z where z: "tree_loop fuel h a 0 p l ?r0 = Some z"
          by (cases "tree_loop fuel h a 0 p l ?r0") auto
        from Suc.IH(2)[OF z] have z': "tree_loop (Suc fuel) h a 0 p l ?r0 = Some z" .
        show ?thesis
          using hyp
          by (simp add: display_obj.simps(2)[of "Suc fuel"] Some TreeCompositeObj z z' del: display_obj.simps tree_loop.simps rectangle_loop.simps)
      next
        case (RectangleCompositeObj k ic cs lv w)
        let ?r0 = "if lv = 0 then []
                   else pad_row w (p @ [c_tee, c_dash] @ fst ic @ str_key k) @ [c_newline]"
        from hyp Some RectangleCompositeObj obtain z where z: "rectangle_loop fuel h a 0 p ?r0 = Some z"
          by (cases "rectangle_loop fuel h a 0 p ?r0") auto
        from Suc.IH(3)[OF z] have z': "rectangle_loop (Suc fuel) h a 0 p ?r0 = Some z" .
        show ?thesis
          using hyp
          by (simp add: display_obj.simps(2)[of "Suc fuel"] Some RectangleCompositeObj z z' del: display_obj.simps tree_loop.simps rectangle_loop.simps)
      qed
    qed }
  { case 2
    note hyp = "2"[unfolded tree_loop.simps(2)]
    from hyp obtain k ic cs lv where self: "deref h a = Some (TreeCompositeObj k ic cs lv)"
      by (auto split: option.splits obj.splits)
    show ?case
    proof (cases "i < length cs")
      case False
      with hyp self show ?thesis
        by (simp add: tree_loop.simps(2)[of "Suc fuel"] del: display_obj.simps tree_loop.simps rectangle_loop.simps)
    next
      case True
      let ?q = "p @ (if lv = 0 then [] else if l then ascii ''   '' else c_bar # ascii ''  '')"
      let ?b = "int i = int (length cs) - 1"
      from hyp self True obtain z where z: "display_obj fuel h (cs ! i) ?q ?b = Some z"
        by (cases "display_obj fuel h (cs ! i) ?q ?b") auto
      from Suc.IH(1)[OF z] have z': "display_obj (Suc fuel) h (cs ! i) ?q ?b = Some z" .
      obtain r h' where zz: "z = (r, h')" by (cases z)
      show ?thesis
      proof (cases r)
        case (Inl e)
        show ?thesis
          using hyp True
          by (simp add: tree_loop.simps(2)[of "Suc fuel"] self z z' zz Inl del: display_obj.simps tree_loop.simps rectangle_loop.simps)
      next
        case (Inr t)
        show ?thesis
        proof (cases t)
          case None
          show ?thesis
            using hyp True
            by (simp add: tree_loop.simps(2)[of "Suc fuel"] self z z' zz Inr None del: display_obj.simps tree_loop.simps rectangle_loop.simps)
        next
          case (Some s)
          from hyp True have "tree_loop fuel h' a (i + 1) p l (res @ s @ [c_newline]) = Some y"
            by (simp add: self z zz Inr Some del: display_obj.simps tree_loop.simps rectangle_loop.simps)
          from Suc.IH(2)[OF this] True show ?thesis
            by (simp add: tree_loop.simps(2)[of "Suc fuel"] self z' zz Inr Some del: display_obj.simps tree_loop.simps rectangle_loop.simps)
        qed
      qed
    qed }
  { case 3
    note hyp = "3"[unfolded rectangle_loop.simps(2)]
    from hyp obtain k ic cs lv w where self: "deref h a = Some (RectangleCompositeObj k ic cs lv w)"
      by (auto split: option.splits obj.splits)
    show ?case
    proof (cases "i < length cs")
      case False
      with hyp self show ?thesis
        by (simp add: rectangle_loop.simps(2)[of "Suc fuel"] del: display_obj.simps tree_loop.simps rectangle_loop.simps)
    next
      case True
      let ?q = "p @ (if lv = 0 then [] else c_bar # ascii ''  '')"
      let ?b = "int i = int (length cs) - 1"
      from hyp self True obtain z where z: "display_obj fuel h (cs ! i) ?q ?b = Some z"
        by (cases "display_obj fuel h (cs ! i) ?q ?b") auto
      from Suc.IH(1)[OF z] have z': "display_obj (Suc fuel) h (cs ! i) ?q ?b = Some z" .
      obtain r h' where zz: "z = (r, h')" by (cases z)
      show ?thesis
      proof (cases r)
        case (Inl e)
        show ?thesis
          using hyp True
          by (simp add: rectangle_loop.simps(2)[of "Suc fuel"] self z z' zz Inl del: display_obj.simps tree_loop.simps rectangle_loop.simps)
      next
        case (Inr t)
        from hyp True have "rectangle_loop fuel h' a (i + 1) p (res @ str_result t @ [c_newline]) = Some y"
          by (simp add: self z zz Inr del: display_obj.simps tree_loop.simps rectangle_loop.simps)
        from Suc.IH(3)[OF this] True show ?thesis
          by (simp add: rectangle_loop.simps(2)[of "Suc fuel"] self z' zz Inr del: display_obj.simps tree_loop.simps rectangle_loop.simps)
      qed
    qed }
qed


lemma display_obj_mono_le:
  "display_obj fuel h a p l = Some x \<Longrightarrow> fuel \<le> fuel' \<Longrightarrow> display_obj fuel' h a p l = Some x"
proof -
  assume x: "display_obj fuel h a p l = Some x" and le: "fuel \<le> fuel'"
  from le show ?thesis
  proof (induction rule: dec_induct)
    case base
    show ?case by (rule x)
  next
    case (step k)
    then show ?case by (intro display_obj_mono(1))
  qed
qed

lemma display_obj_determinate:
  assumes "display_obj fuel1 h a p l = Some x" and "display_obj fuel2 h a p l = Some y"
  shows "x = y"
proof -
  have "display_obj (max fuel1 fuel2) h a p l = Some x"
    using assms(1) by (rule display_obj_mono_le) simp
  moreover have "display_obj (max fuel1 fuel2) h a p l = Some y"
    using assms(2) by (rule display_obj_mono_le) simp
  ultimately show ?thesis by simp
qed

text \<open>
  C8. In any store whatever, a call of \<open>display\<close> that returns leaves the store as it
  was. Build a tree in any store, with either factory, and call \<open>display\<close> on its root with
  any prefix and flag. With enough fuel the call returns, and what it returns is what the
  value model returns on the tree that the value-level builder builds. Whenever a first
  call returns and a second call with the same arguments, made in the store the first one
  left, returns, the two outputs are the same and the store after each call is the store
  before the first: rendering modifies no object.
\<close>

theorem display_twice:
  "(\<forall>fuel s a r s'. display_obj fuel s a prefix is_last = Some (r, s') \<longrightarrow> s' = s)
   \<and> (\<exists>root h n. build_obj f ic j key h0 = Some (Inr root, h) \<and> build f ic j key = Inr n
     \<and> (\<exists>fuel. display_obj fuel h root prefix is_last = Some (display n prefix is_last, h))
     \<and> (\<forall>fuel1 fuel2 r1 h1 r2 h2.
           display_obj fuel1 h root prefix is_last = Some (r1, h1) \<longrightarrow>
           display_obj fuel2 h1 root prefix is_last = Some (r2, h2) \<longrightarrow>
           r1 = display n prefix is_last \<and> r2 = r1 \<and> h1 = h \<and> h2 = h))"
proof -
  have frame: "\<forall>fuel s a r s'. display_obj fuel s a prefix is_last = Some (r, s') \<longrightarrow> s' = s"
    using display_obj_frame(1) by blast
  obtain n where n: "build f ic j key = Inr n" using build_Inr by blast
  from build_obj_held(1)[OF n, of h0] obtain h where h:
    "build_obj f ic j key h0 = Some (Inr (length h0), h)"
    "held (length h0) (length h) h (length h0) n"
    by blast
  from held_renders[OF h(2)] obtain F where F: "renders F h (length h0) n" ..
  then have run: "display_obj F h (length h0) prefix is_last = Some (display n prefix is_last, h)"
    by (simp add: renders_def)
  have same: "r1 = display n prefix is_last \<and> r2 = r1 \<and> h1 = h \<and> h2 = h"
    if one: "display_obj fuel1 h (length h0) prefix is_last = Some (r1, h1)"
      and two: "display_obj fuel2 h1 (length h0) prefix is_last = Some (r2, h2)"
    for fuel1 fuel2 r1 h1 r2 h2
  proof -
    from display_obj_determinate[OF one run] have first: "r1 = display n prefix is_last" "h1 = h"
      by simp_all
    from display_obj_determinate[OF two[unfolded first(2)] run] first show ?thesis by simp
  qed
  from h(1) n run same have
    "\<exists>root h n. build_obj f ic j key h0 = Some (Inr root, h) \<and> build f ic j key = Inr n
     \<and> (\<exists>fuel. display_obj fuel h root prefix is_last = Some (display n prefix is_last, h))
     \<and> (\<forall>fuel1 fuel2 r1 h1 r2 h2.
           display_obj fuel1 h root prefix is_last = Some (r1, h1) \<longrightarrow>
           display_obj fuel2 h1 root prefix is_last = Some (r2, h2) \<longrightarrow>
           r1 = display n prefix is_last \<and> r2 = r1 \<and> h1 = h \<and> h2 = h)"
    by blast
  with frame show ?thesis by blast
qed

theorem display_twice_witness:
  "build_obj TreeNodeFactory ([c_space], [c_space]) (JObject [(ascii ''x'', JScalar SNone)]) None []
     = Some (Inr 0, [TreeCompositeObj None ([c_space], [c_space]) [1] 0,
                     TreeLeafObj (Some (ascii ''x'')) SNone ([c_space], [c_space]) (Some 1)])
   \<and> display_obj (Suc (Suc (Suc (Suc 0))))
        [TreeCompositeObj None ([c_space], [c_space]) [1] 0,
         TreeLeafObj (Some (ascii ''x'')) SNone ([c_space], [c_space]) (Some 1)] 0 [] True
     = Some (Inr (Some ([c_elbow, c_dash, c_space] @ ascii ''x'')),
             [TreeCompositeObj None ([c_space], [c_space]) [1] 0,
              TreeLeafObj (Some (ascii ''x'')) SNone ([c_space], [c_space]) (Some 1)])
   \<and> display (TreeCompositeNode None ([c_space], [c_space])
                [TreeLeafNode (Some (ascii ''x'')) SNone ([c_space], [c_space]) (Some 1)] 0) [] True
     = Inr (Some ([c_elbow, c_dash, c_space] @ ascii ''x''))"
proof -
  let ?ic = "([c_space], [c_space])"
  let ?j = "JObject [(ascii ''x'', JScalar SNone)]"
  let ?h = "[TreeCompositeObj None ?ic [1] 0, TreeLeafObj (Some (ascii ''x'')) SNone ?ic (Some 1)]"
  let ?n = "TreeCompositeNode None ?ic [TreeLeafNode (Some (ascii ''x'')) SNone ?ic (Some 1)] 0"
  have b: "build_obj TreeNodeFactory ?ic ?j None [] = Some (Inr 0, ?h)"
    by (simp add: alloc_def add_obj_def deref_def)
  have v: "build TreeNodeFactory ?ic ?j None = Inr ?n" by simp
  have d: "display_obj (Suc (Suc (Suc (Suc 0)))) ?h 0 [] True
             = Some (Inr (Some ([c_elbow, c_dash, c_space] @ ascii ''x'')), ?h)"
    by (simp add: deref_def node_prefix_def rstrip_def isspace_def ascii_def)
  from display_twice [where f = TreeNodeFactory and ic = ?ic and j = ?j and key = None
      and ?h0.0 = "[]" and prefix = "[]" and is_last = True] b v
  have "\<forall>fuel1 fuel2 r1 h1 r2 h2.
           display_obj fuel1 ?h 0 [] True = Some (r1, h1) \<longrightarrow>
           display_obj fuel2 h1 0 [] True = Some (r2, h2) \<longrightarrow>
           r1 = display ?n [] True \<and> r2 = r1 \<and> h1 = ?h \<and> h2 = ?h"
    by auto
  with d have "display ?n [] True = Inr (Some ([c_elbow, c_dash, c_space] @ ascii ''x''))"
    by metis
  with b d show ?thesis by simp
qed

end
